theory Spec2Isabelle
  imports Complex_Main
begin

section \<open>Outcomes of calls\<close>

text \<open>
  A call of the C++ code either returns a value, or runs into undefined behaviour
  (a null or dangling pointer is dereferenced, a vector is indexed out of range), or
  never returns (a pointer walk on a cyclic structure, a lock that is never granted).
  An outcome is \<open>None\<close> when the call never returns, \<open>Some (Inl e)\<close> when it
  faults with \<open>e\<close>, and \<open>Some (Inr x)\<close> when it returns \<open>x\<close>.
\<close>

datatype error = NullPointer | DanglingPointer | OutOfBounds

type_synonym 'a outcome = "(error + 'a) option"

definition ok :: "'a \<Rightarrow> 'a outcome" where
  "ok x = Some (Inr x)"

definition fault :: "error \<Rightarrow> 'a outcome" where
  "fault e = Some (Inl e)"

definition andthen :: "'a outcome \<Rightarrow> ('a \<Rightarrow> 'b outcome) \<Rightarrow> 'b outcome" where
  "andthen m f = (case m of None \<Rightarrow> None | Some (Inl e) \<Rightarrow> Some (Inl e) | Some (Inr x) \<Rightarrow> f x)"

lemma andthen_mono [partial_function_mono]:
  fixes B :: "('a \<Rightarrow> 'b option) \<Rightarrow> 'c outcome"
    and C :: "'c \<Rightarrow> ('a \<Rightarrow> 'b option) \<Rightarrow> 'd outcome"
  assumes mf: "mono_option B" and mg: "\<And>y. mono_option (\<lambda>f. C y f)"
  shows "mono_option (\<lambda>f. andthen (B f) (\<lambda>y. C y f))"
proof (rule monotoneI)
  fix f g :: "'a \<Rightarrow> 'b option"
  assume fg: "fun_ord option_ord f g"
  have "option_ord (B f) (B g)"
    using mf fg by (auto dest: monotoneD)
  then have B: "B f = None \<or> B f = B g"
    by (auto simp: flat_ord_def)
  have C: "\<And>y. option_ord (C y f) (C y g)"
    using mg fg by (auto dest: monotoneD)
  show "option_ord (andthen (B f) (\<lambda>y. C y f)) (andthen (B g) (\<lambda>y. C y g))"
  proof (cases "B f")
    case None
    then show ?thesis by (simp add: andthen_def flat_ord_def)
  next
    case (Some r)
    with B have "B g = Some r" by simp
    with Some C show ?thesis by (cases r) (simp_all add: andthen_def flat_ord_def)
  qed
qed

section \<open>Node (include/Node.h)\<close>

type_synonym addr = nat

text \<open>A \<open>Node<K, V>*\<close>: \<open>None\<close> is \<open>nullptr\<close>.\<close>

type_synonym ptr = "addr option"

record ('k, 'v) Node =
  nkey :: 'k
  nvalue :: 'v
  node_level :: nat
  forward :: "ptr list"

text \<open>The constructor: \<open>forward_.resize(level + 1, nullptr)\<close>.\<close>

definition Node_new :: "'k \<Rightarrow> 'v \<Rightarrow> nat \<Rightarrow> ('k, 'v) Node" where
  "Node_new k v level =
     \<lparr>nkey = k, nvalue = v, node_level = level, forward = replicate (level + 1) None\<rparr>"

section \<open>The free store\<close>

text \<open>
  The nodes live in the free store: cell \<open>a\<close> holds the node allocated at address
  \<open>a\<close>, or \<open>None\<close> once it has been deleted. \<open>new\<close> takes the next unused
  address.
\<close>

type_synonym ('k, 'v) heap = "('k, 'v) Node option list"

definition deref :: "('k, 'v) heap \<Rightarrow> ptr \<Rightarrow> ('k, 'v) Node outcome" where
  "deref h p =
     (case p of
        None \<Rightarrow> fault NullPointer
      | Some a \<Rightarrow>
          if a < length h then (case h ! a of None \<Rightarrow> fault DanglingPointer | Some n \<Rightarrow> ok n)
          else fault DanglingPointer)"

text \<open>\<open>p->forward_[i]\<close> as an rvalue.\<close>

definition get_forward :: "('k, 'v) heap \<Rightarrow> ptr \<Rightarrow> nat \<Rightarrow> ptr outcome" where
  "get_forward h p i =
     andthen (deref h p) (\<lambda>n.
       if i < length (forward n) then ok (forward n ! i) else fault OutOfBounds)"

text \<open>\<open>p->forward_[i] = q\<close>.\<close>

definition set_forward :: "('k, 'v) heap \<Rightarrow> ptr \<Rightarrow> nat \<Rightarrow> ptr \<Rightarrow> ('k, 'v) heap outcome" where
  "set_forward h p i q =
     andthen (deref h p) (\<lambda>n.
       if i < length (forward n)
       then ok (h[the p := Some (n\<lparr>forward := (forward n)[i := q]\<rparr>)])
       else fault OutOfBounds)"

text \<open>\<open>p->value_ = v\<close>.\<close>

definition set_value :: "('k, 'v) heap \<Rightarrow> ptr \<Rightarrow> 'v \<Rightarrow> ('k, 'v) heap outcome" where
  "set_value h p v = andthen (deref h p) (\<lambda>n. ok (h[the p := Some (n\<lparr>nvalue := v\<rparr>)]))"

text \<open>\<open>new Node<K, V>(k, v, level)\<close>: the pointer and the extended store.\<close>

definition new_Node :: "('k, 'v) heap \<Rightarrow> 'k \<Rightarrow> 'v \<Rightarrow> nat \<Rightarrow> ptr \<times> ('k, 'v) heap" where
  "new_Node h k v level = (Some (length h), h @ [Some (Node_new k v level)])"

text \<open>\<open>delete p\<close>: deleting \<open>nullptr\<close> does nothing, deleting twice is a fault.\<close>

definition delete_Node :: "('k, 'v) heap \<Rightarrow> ptr \<Rightarrow> ('k, 'v) heap outcome" where
  "delete_Node h p =
     (case p of None \<Rightarrow> ok h | Some a \<Rightarrow> andthen (deref h p) (\<lambda>n. ok (h[a := None])))"

text \<open>Indexing a \<open>std::vector\<close>, here the \<open>update\<close> array of insert and delete.\<close>

definition vec_get :: "'a list \<Rightarrow> nat \<Rightarrow> 'a outcome" where
  "vec_get xs i = (if i < length xs then ok (xs ! i) else fault OutOfBounds)"

definition vec_set :: "'a list \<Rightarrow> nat \<Rightarrow> 'a \<Rightarrow> 'a list outcome" where
  "vec_set xs i x = (if i < length xs then ok (xs[i := x]) else fault OutOfBounds)"

section \<open>SkipList (include/SkipList.h)\<close>

definition MAX_LEVEL :: nat where
  "MAX_LEVEL = 32"

definition P_FACTOR :: real where
  "P_FACTOR = 1 / 2"

text \<open>
  The \<open>std::shared_mutex\<close>: free, held in shared mode by some number of readers, or
  held exclusively.
\<close>

datatype lock_state = Unlocked | SharedBy nat | Exclusive

record ('k, 'v) SkipList =
  memory :: "('k, 'v) heap"
  header :: ptr
  current_level :: nat
  element_count :: int
  mutex :: lock_state

text \<open>
  Levels are \<open>int\<close> in the source and never negative: \<open>lvl\<close> starts at 0 and is only
  incremented, \<open>current_level_\<close> is decremented only while positive. They are \<open>nat\<close>
  here. \<open>element_count_\<close> is an \<open>int\<close>.
\<close>

subsection \<open>Locking\<close>

text \<open>
  The constructor of \<open>std::unique_lock\<close> and \<open>std::shared_lock\<close> blocks until the
  lock is granted. The model runs one call at a time, so a lock held by someone else
  is never released and the call does not return.
\<close>

definition lock_unique :: "('k, 'v) SkipList \<Rightarrow> ('k, 'v) SkipList outcome" where
  "lock_unique s = (if mutex s = Unlocked then ok (s\<lparr>mutex := Exclusive\<rparr>) else None)"

definition unlock_unique :: "('k, 'v) SkipList \<Rightarrow> ('k, 'v) SkipList" where
  "unlock_unique s = s\<lparr>mutex := Unlocked\<rparr>"

definition lock_shared :: "('k, 'v) SkipList \<Rightarrow> ('k, 'v) SkipList outcome" where
  "lock_shared s =
     (case mutex s of
        Unlocked \<Rightarrow> ok (s\<lparr>mutex := SharedBy 1\<rparr>)
      | SharedBy n \<Rightarrow> ok (s\<lparr>mutex := SharedBy (n + 1)\<rparr>)
      | Exclusive \<Rightarrow> None)"

definition unlock_shared :: "('k, 'v) SkipList \<Rightarrow> ('k, 'v) SkipList" where
  "unlock_shared s =
     (case mutex s of
        SharedBy n \<Rightarrow> s\<lparr>mutex := (if n \<le> 1 then Unlocked else SharedBy (n - 1))\<rparr>
      | _ \<Rightarrow> s)"

subsection \<open>get_random_level\<close>

text \<open>
  The thread's generator is the sequence of values that \<open>distribution(generator)\<close>
  will return: \<open>g 0\<close> is the next draw. Every evaluation of the loop condition takes
  one draw, also the one that ends the loop.
\<close>

type_synonym rng = "nat \<Rightarrow> real"

function get_random_level_loop :: "rng \<Rightarrow> nat \<Rightarrow> nat \<times> rng" where
  "get_random_level_loop g lvl =
     (if g 0 < P_FACTOR \<and> lvl < MAX_LEVEL
      then get_random_level_loop (\<lambda>i. g (Suc i)) (lvl + 1)
      else (lvl, (\<lambda>i. g (Suc i))))"
  by pat_completeness auto
termination
  by (relation "measure (\<lambda>(g, lvl). MAX_LEVEL - lvl)") auto

declare get_random_level_loop.simps [simp del]

definition get_random_level :: "rng \<Rightarrow> nat \<times> rng" where
  "get_random_level g = get_random_level_loop g 0"

subsection \<open>The constructor\<close>

text \<open>
  \<open>K k; V v;\<close> are default-constructed; \<open>k0\<close> and \<open>v0\<close> stand for whatever that
  yields. The header is the first node allocated.
\<close>

definition SkipList_new :: "'k \<Rightarrow> 'v \<Rightarrow> ('k, 'v) SkipList" where
  "SkipList_new k0 v0 =
     (let (p, h) = new_Node [] k0 v0 MAX_LEVEL
      in \<lparr>memory = h, header = p, current_level = 0, element_count = 0, mutex = Unlocked\<rparr>)"

subsection \<open>The walk\<close>

text \<open>
  \<open>while (current->forward_[i] && current->forward_[i]->key_ < key)
     current = current->forward_[i];\<close>
\<close>

partial_function (option) walk_right ::
  "('k::linorder, 'v) heap \<Rightarrow> 'k \<Rightarrow> nat \<Rightarrow> ptr \<Rightarrow> ptr outcome" where
  "walk_right h key i current =
     andthen (get_forward h current i) (\<lambda>nxt.
       if nxt = None then ok current
       else andthen (deref h nxt) (\<lambda>n.
         if nkey n < key then walk_right h key i nxt else ok current))"

declare walk_right.simps [code]

text \<open>\<open>for (int i = current_level; i >= 0; --i) { walk }\<close> of search_element.\<close>

fun search_levels :: "('k::linorder, 'v) heap \<Rightarrow> 'k \<Rightarrow> nat \<Rightarrow> ptr \<Rightarrow> ptr outcome" where
  "search_levels h key 0 current = walk_right h key 0 current"
| "search_levels h key (Suc i) current =
     andthen (walk_right h key (Suc i) current) (\<lambda>current. search_levels h key i current)"

text \<open>The same loop with \<open>update[i] = current\<close>, of insert_element and delete_element.\<close>

fun find_predecessors ::
  "('k::linorder, 'v) heap \<Rightarrow> 'k \<Rightarrow> nat \<Rightarrow> ptr \<Rightarrow> ptr list \<Rightarrow> (ptr \<times> ptr list) outcome" where
  "find_predecessors h key 0 current update =
     andthen (walk_right h key 0 current) (\<lambda>current.
     andthen (vec_set update 0 current) (\<lambda>update. ok (current, update)))"
| "find_predecessors h key (Suc i) current update =
     andthen (walk_right h key (Suc i) current) (\<lambda>current.
     andthen (vec_set update (Suc i) current) (\<lambda>update.
       find_predecessors h key i current update))"

text \<open>\<open>current && current->key_ == key\<close>.\<close>

definition key_matches :: "('k, 'v) heap \<Rightarrow> ptr \<Rightarrow> 'k \<Rightarrow> bool outcome" where
  "key_matches h current key =
     (if current = None then ok False else andthen (deref h current) (\<lambda>n. ok (nkey n = key)))"

subsection \<open>search_element\<close>

text \<open>Returns the result and the out-parameter \<open>value\<close> as the call leaves it.\<close>

definition search_element ::
  "('k::linorder, 'v) SkipList \<Rightarrow> 'k \<Rightarrow> 'v \<Rightarrow> (bool \<times> 'v \<times> ('k, 'v) SkipList) outcome" where
  "search_element s key value =
     andthen (lock_shared s) (\<lambda>s.
     andthen (search_levels (memory s) key (current_level s) (header s)) (\<lambda>current.
     andthen (get_forward (memory s) current 0) (\<lambda>current.
     andthen (key_matches (memory s) current key) (\<lambda>found.
       if found
       then andthen (deref (memory s) current) (\<lambda>n. ok (True, nvalue n, unlock_shared s))
       else ok (False, value, unlock_shared s)))))"

subsection \<open>insert_element\<close>

text \<open>\<open>for (int i = current_level + 1; i <= random_level; i++) update[i] = header;\<close>\<close>

function raise_levels :: "ptr list \<Rightarrow> ptr \<Rightarrow> nat \<Rightarrow> nat \<Rightarrow> ptr list outcome" where
  "raise_levels update hdr i random_level =
     (if i \<le> random_level
      then andthen (vec_set update i hdr) (\<lambda>update.
             raise_levels update hdr (i + 1) random_level)
      else ok update)"
  by pat_completeness auto
termination
  by (relation "measure (\<lambda>(update, hdr, i, random_level). random_level + 1 - i)") auto

declare raise_levels.simps [simp del]

text \<open>
  \<open>for (int i = 0; i <= random_level; i++) {
     new_node->forward_[i] = update[i]->forward_[i];
     update[i]->forward_[i] = new_node; }\<close>
\<close>

function link_levels ::
  "('k, 'v) heap \<Rightarrow> ptr list \<Rightarrow> ptr \<Rightarrow> nat \<Rightarrow> nat \<Rightarrow> ('k, 'v) heap outcome" where
  "link_levels h update new_node i random_level =
     (if i \<le> random_level
      then andthen (vec_get update i) (\<lambda>pred.
           andthen (get_forward h pred i) (\<lambda>succ.
           andthen (set_forward h new_node i succ) (\<lambda>h.
           andthen (set_forward h pred i new_node) (\<lambda>h.
             link_levels h update new_node (i + 1) random_level))))
      else ok h)"
  by pat_completeness auto
termination
  by (relation "measure (\<lambda>(h, update, new_node, i, random_level). random_level + 1 - i)") auto

declare link_levels.simps [simp del]

definition insert_element ::
  "('k::linorder, 'v) SkipList \<Rightarrow> 'k \<Rightarrow> 'v \<Rightarrow> rng \<Rightarrow> (bool \<times> ('k, 'v) SkipList \<times> rng) outcome" where
  "insert_element s key value g =
     andthen (lock_unique s) (\<lambda>s.
     andthen (find_predecessors (memory s) key (current_level s) (header s)
                (replicate (MAX_LEVEL + 1) None)) (\<lambda>(current, update).
     andthen (get_forward (memory s) current 0) (\<lambda>current.
     andthen (key_matches (memory s) current key) (\<lambda>found.
       if found
       then andthen (set_value (memory s) current value) (\<lambda>h.
              ok (True, unlock_unique (s\<lparr>memory := h\<rparr>), g))
       else
         (case get_random_level g of (random_level, g) \<Rightarrow>
          andthen (if random_level > current_level s
                   then andthen (raise_levels update (header s) (current_level s + 1) random_level)
                          (\<lambda>update. ok (update, s\<lparr>current_level := random_level\<rparr>))
                   else ok (update, s)) (\<lambda>(update, s).
          (case new_Node (memory s) key value random_level of (new_node, h) \<Rightarrow>
          andthen (link_levels h update new_node 0 random_level) (\<lambda>h.
            ok (True,
                unlock_unique (s\<lparr>memory := h, element_count := element_count s + 1\<rparr>),
                g)))))))))"

subsection \<open>delete_element\<close>

text \<open>
  \<open>for (int i = 0; i <= current_level; ++i) {
     if (update[i]->forward_[i] != current) break;
     update[i]->forward_[i] = current->forward_[i]; }\<close>
\<close>

function unlink_levels ::
  "('k, 'v) heap \<Rightarrow> ptr list \<Rightarrow> ptr \<Rightarrow> nat \<Rightarrow> nat \<Rightarrow> ('k, 'v) heap outcome" where
  "unlink_levels h update current i level =
     (if i \<le> level
      then andthen (vec_get update i) (\<lambda>pred.
           andthen (get_forward h pred i) (\<lambda>succ.
             if succ \<noteq> current then ok h
             else andthen (get_forward h current i) (\<lambda>after.
                  andthen (set_forward h pred i after) (\<lambda>h.
                    unlink_levels h update current (i + 1) level))))
      else ok h)"
  by pat_completeness auto
termination
  by (relation "measure (\<lambda>(h, update, current, i, level). level + 1 - i)") auto

declare unlink_levels.simps [simp del]

text \<open>
  \<open>while (current_level > 0 && header->forward_[current_level] == nullptr)
     --current_level;\<close>
\<close>

function lower_level :: "('k, 'v) heap \<Rightarrow> ptr \<Rightarrow> nat \<Rightarrow> nat outcome" where
  "lower_level h hdr level =
     (if level > 0
      then andthen (get_forward h hdr level) (\<lambda>top.
             if top = None then lower_level h hdr (level - 1) else ok level)
      else ok level)"
  by pat_completeness auto
termination
  by (relation "measure (\<lambda>(h, hdr, level). level)") auto

declare lower_level.simps [simp del]

definition delete_element ::
  "('k::linorder, 'v) SkipList \<Rightarrow> 'k \<Rightarrow> (bool \<times> ('k, 'v) SkipList) outcome" where
  "delete_element s key =
     andthen (lock_unique s) (\<lambda>s.
     andthen (find_predecessors (memory s) key (current_level s) (header s)
                (replicate (MAX_LEVEL + 1) None)) (\<lambda>(current, update).
     andthen (get_forward (memory s) current 0) (\<lambda>current.
     andthen (key_matches (memory s) current key) (\<lambda>found.
       if \<not> found then ok (False, unlock_unique s)
       else
         andthen (unlink_levels (memory s) update current 0 (current_level s)) (\<lambda>h.
         andthen (lower_level h (header s) (current_level s)) (\<lambda>level.
         andthen (delete_Node h current) (\<lambda>h.
           ok (True,
               unlock_unique (s\<lparr>memory := h, current_level := level,
                                 element_count := element_count s - 1\<rparr>)))))))))"

subsection \<open>clear\<close>

text \<open>
  \<open>while (current) { Node* next = current->forward_[0]; delete current; current = next; }\<close>
\<close>

partial_function (option) clear_loop :: "('k, 'v) heap \<Rightarrow> ptr \<Rightarrow> ('k, 'v) heap outcome" where
  "clear_loop h current =
     (if current = None then ok h
      else andthen (get_forward h current 0) (\<lambda>next.
           andthen (delete_Node h current) (\<lambda>h. clear_loop h next)))"

declare clear_loop.simps [code]

text \<open>\<open>std::fill(p->forward_.begin(), p->forward_.end(), nullptr)\<close>.\<close>

definition fill_forward :: "('k, 'v) heap \<Rightarrow> ptr \<Rightarrow> ('k, 'v) heap outcome" where
  "fill_forward h p =
     andthen (deref h p) (\<lambda>n.
       ok (h[the p := Some (n\<lparr>forward := replicate (length (forward n)) None\<rparr>)]))"

text \<open>The source takes no lock in \<open>clear\<close>.\<close>

definition clear :: "('k, 'v) SkipList \<Rightarrow> ('k, 'v) SkipList outcome" where
  "clear s =
     andthen (get_forward (memory s) (header s) 0) (\<lambda>current.
     andthen (clear_loop (memory s) current) (\<lambda>h.
     andthen (fill_forward h (header s)) (\<lambda>h.
       ok (s\<lparr>memory := h, current_level := 0, element_count := 0\<rparr>))))"

subsection \<open>process_all\<close>

text \<open>
  \<open>while (node != nullptr) { func(node->key_, node->value_); node = node->forward_[0]; }\<close>
  The callback acts on what it captured by reference, of type \<open>'a\<close>: \<open>func k v\<close>
  maps the captured state before the call to the one after it.
\<close>

partial_function (option) process_all_loop ::
  "('k, 'v) heap \<Rightarrow> ('k \<Rightarrow> 'v \<Rightarrow> 'a \<Rightarrow> 'a) \<Rightarrow> ptr \<Rightarrow> 'a \<Rightarrow> 'a outcome" where
  "process_all_loop h func node acc =
     (if node \<noteq> None
      then andthen (deref h node) (\<lambda>n.
           andthen (get_forward h node 0) (\<lambda>next.
             process_all_loop h func next (func (nkey n) (nvalue n) acc)))
      else ok acc)"

declare process_all_loop.simps [code]

text \<open>The source takes no lock in \<open>process_all\<close>.\<close>

definition process_all ::
  "('k, 'v) SkipList \<Rightarrow> ('k \<Rightarrow> 'v \<Rightarrow> 'a \<Rightarrow> 'a) \<Rightarrow> 'a \<Rightarrow> 'a outcome" where
  "process_all s func acc =
     andthen (get_forward (memory s) (header s) 0) (\<lambda>node.
       process_all_loop (memory s) func node acc)"

section \<open>KVStore (include/KVStore.h)\<close>

text \<open>
  \<open>put\<close>, \<open>get\<close>, \<open>del\<close> and \<open>clear\<close> are written for every \<open>K\<close> and \<open>V\<close>;
  \<open>dump\<close> and \<open>load\<close> go through the text of a key and of a value, and are modelled
  for the instance the program uses, \<open>KVStore<int, std::string>\<close> (main.cpp). A key is
  then an \<open>int\<close>, a mathematical integer between \<open>INT_MIN\<close> and \<open>INT_MAX\<close>, and a
  value is a byte string.
\<close>

definition INT_MAX :: int where
  "INT_MAX = 2147483647"

definition INT_MIN :: int where
  "INT_MIN = - 2147483648"

subsection \<open>Text of an int\<close>

definition digit_char :: "int \<Rightarrow> char" where
  "digit_char d = char_of (48 + d)"

definition is_digit :: "char \<Rightarrow> bool" where
  "is_digit c \<longleftrightarrow> 48 \<le> (of_char c :: int) \<and> (of_char c :: int) \<le> 57"

definition digit_value :: "char \<Rightarrow> int" where
  "digit_value c = of_char c - 48"

text \<open>\<open>isspace\<close> in the C locale: space, and \<open>\t \n \v \f \r\<close>.\<close>

definition is_space :: "char \<Rightarrow> bool" where
  "is_space c \<longleftrightarrow> (of_char c :: int) = 32 \<or> (9 \<le> (of_char c :: int) \<and> (of_char c :: int) \<le> 13)"

text \<open>The decimal digits of a number that is not negative.\<close>

function digits_of :: "int \<Rightarrow> string" where
  "digits_of n = (if n < 10 then [digit_char n] else digits_of (n div 10) @ [digit_char (n mod 10)])"
  by pat_completeness auto
termination
  by (relation "measure nat") auto

declare digits_of.simps [simp del]

text \<open>\<open>out_file << key\<close> for an \<open>int\<close>: decimal, with a minus sign when negative.\<close>

definition write_int :: "int \<Rightarrow> string" where
  "write_int k = (if k < 0 then CHR ''-'' # digits_of (- k) else digits_of k)"

definition digits_value :: "string \<Rightarrow> int" where
  "digits_value ds = foldl (\<lambda>acc c. 10 * acc + digit_value c) 0 ds"

text \<open>
  \<open>ss >> key\<close> for an \<open>int\<close>: leading white space is skipped, then an optional sign
  and decimal digits are read. With no digit the extraction fails and stores 0; a number
  out of range stores the nearest limit.
\<close>

definition read_int :: "string \<Rightarrow> int" where
  "read_int str =
     (let s = dropWhile is_space str;
          negative = (s \<noteq> [] \<and> hd s = CHR ''-'');
          signed = (s \<noteq> [] \<and> (hd s = CHR ''-'' \<or> hd s = CHR ''+''));
          ds = takeWhile is_digit (if signed then tl s else s);
          v = (if negative then - digits_value ds else digits_value ds)
      in if ds = [] then 0
         else if v > INT_MAX then INT_MAX
         else if v < INT_MIN then INT_MIN
         else v)"

subsection \<open>Files\<close>

text \<open>
  The file system as the store sees it: the text of every file that can be opened for
  reading, and the paths that can be opened for writing.
\<close>

record filesystem =
  readable :: "string \<Rightarrow> string option"
  writable :: "string \<Rightarrow> bool"

definition newline :: char where
  "newline = CHR 0x0A"

definition delimiter :: char where
  "delimiter = CHR '':''"

text \<open>
  The lines that \<open>while (std::getline(in_file, line))\<close> reads: \<open>getline\<close> fails
  once nothing is left, and a last line needs no newline after it.
\<close>

function getlines :: "string \<Rightarrow> string list" where
  "getlines str =
     (if str = [] then []
      else takeWhile (\<lambda>c. c \<noteq> newline) str #
           getlines (drop 1 (dropWhile (\<lambda>c. c \<noteq> newline) str)))"
  by pat_completeness auto
termination
proof (relation "measure length")
  show "wf (measure length)"
    by simp
next
  fix str :: string
  assume "str \<noteq> []"
  moreover have "length (dropWhile (\<lambda>c. c \<noteq> newline) str) \<le> length str"
    by (rule length_dropWhile_le)
  ultimately show "(drop 1 (dropWhile (\<lambda>c. c \<noteq> newline) str), str) \<in> measure length"
    by (cases str) auto
qed

declare getlines.simps [simp del]

subsection \<open>The store\<close>

record ('k, 'v) KVStore =
  skip_list :: "('k, 'v) SkipList"
  file_path :: string

text \<open>\<open>void put(const K& key, const V& value)\<close>\<close>

definition put ::
  "('k::linorder, 'v) KVStore \<Rightarrow> 'k \<Rightarrow> 'v \<Rightarrow> rng \<Rightarrow> (('k, 'v) KVStore \<times> rng) outcome" where
  "put st k v g =
     andthen (insert_element (skip_list st) k v g) (\<lambda>(inserted, s, g).
       ok (st\<lparr>skip_list := s\<rparr>, g))"

text \<open>\<open>bool get(const K& key, V& value)\<close>\<close>

definition get ::
  "('k::linorder, 'v) KVStore \<Rightarrow> 'k \<Rightarrow> 'v \<Rightarrow> (bool \<times> 'v \<times> ('k, 'v) KVStore) outcome" where
  "get st k v =
     andthen (search_element (skip_list st) k v) (\<lambda>(found, v, s).
       ok (found, v, st\<lparr>skip_list := s\<rparr>))"

text \<open>\<open>void del(const K& key) { skip_list_->delete_element(key); }\<close>\<close>

definition del :: "('k::linorder, 'v) KVStore \<Rightarrow> 'k \<Rightarrow> (unit \<times> ('k, 'v) KVStore) outcome" where
  "del st k =
     andthen (delete_element (skip_list st) k) (\<lambda>(removed, s).
       ok ((), st\<lparr>skip_list := s\<rparr>))"

text \<open>\<open>void clear() { skip_list_->clear(); }\<close>\<close>

definition clear_store :: "('k, 'v) KVStore \<Rightarrow> ('k, 'v) KVStore outcome" where
  "clear_store st = andthen (clear (skip_list st)) (\<lambda>s. ok (st\<lparr>skip_list := s\<rparr>))"

text \<open>
  \<open>dump\<close> returns nothing. The model returns the store, the file system, and the lines
  written to \<open>std::cerr\<close>. The callback appends \<open>key << ":" << value << "\n"\<close> to the
  text of the file.
\<close>

definition dump_line :: "int \<Rightarrow> string \<Rightarrow> string \<Rightarrow> string" where
  "dump_line k v out = out @ write_int k @ [delimiter] @ v @ [newline]"

definition dump ::
  "(int, string) KVStore \<Rightarrow> filesystem \<Rightarrow>
   ((int, string) KVStore \<times> filesystem \<times> string list) outcome" where
  "dump st fs =
     (if \<not> writable fs (file_path st)
      then ok (st, fs, [''Error opening file for dump: '' @ file_path st])
      else andthen (process_all (skip_list st) dump_line []) (\<lambda>out.
             ok (st, fs\<lparr>readable := (readable fs)(file_path st := Some out)\<rparr>, [])))"

text \<open>
  The loop of \<open>load\<close> over the lines: a line with no delimiter is skipped, otherwise it
  is cut at the first one, the key is read as an \<open>int\<close> and the value is the rest.
\<close>

fun load_lines ::
  "(int, string) SkipList \<Rightarrow> string list \<Rightarrow> rng \<Rightarrow> ((int, string) SkipList \<times> rng) outcome" where
  "load_lines s [] g = ok (s, g)"
| "load_lines s (line # lines) g =
     (if delimiter \<in> set line
      then (let key_str = takeWhile (\<lambda>c. c \<noteq> delimiter) line;
                value_str = drop 1 (dropWhile (\<lambda>c. c \<noteq> delimiter) line)
            in andthen (insert_element s (read_int key_str) value_str g) (\<lambda>(inserted, s, g).
                 load_lines s lines g))
      else load_lines s lines g)"

definition load ::
  "(int, string) KVStore \<Rightarrow> filesystem \<Rightarrow> rng \<Rightarrow> ((int, string) KVStore \<times> rng) outcome" where
  "load st fs g =
     (case readable fs (file_path st) of
        None \<Rightarrow> ok (st, g)
      | Some text \<Rightarrow>
          andthen (load_lines (skip_list st) (getlines text) g) (\<lambda>(s, g).
            ok (st\<lparr>skip_list := s\<rparr>, g)))"

text \<open>The constructor: a fresh SkipList, then \<open>load()\<close>.\<close>

definition KVStore_new ::
  "string \<Rightarrow> int \<Rightarrow> filesystem \<Rightarrow> rng \<Rightarrow> ((int, string) KVStore \<times> rng) outcome" where
  "KVStore_new path k0 fs g = load \<lparr>skip_list = SkipList_new k0 [], file_path = path\<rparr> fs g"

section \<open>Sequences of calls\<close>

datatype ('k, 'v) call = Insert 'k 'v | Search 'k 'v | Delete 'k | Clear | Traverse

text \<open>One call on the index, its result dropped; the generator is the calling thread's.\<close>

fun perform ::
  "('k::linorder, 'v) SkipList \<Rightarrow> rng \<Rightarrow> ('k, 'v) call \<Rightarrow> (('k, 'v) SkipList \<times> rng) outcome" where
  "perform s g (Insert k v) = andthen (insert_element s k v g) (\<lambda>(r, s, g). ok (s, g))"
| "perform s g (Search k v) = andthen (search_element s k v) (\<lambda>(r, v, s). ok (s, g))"
| "perform s g (Delete k) = andthen (delete_element s k) (\<lambda>(r, s). ok (s, g))"
| "perform s g Clear = andthen (clear s) (\<lambda>s. ok (s, g))"
| "perform s g Traverse =
     andthen (process_all s (\<lambda>k v acc. acc @ [(k, v)]) []) (\<lambda>kvs. ok (s, g))"

fun run ::
  "('k::linorder, 'v) SkipList \<Rightarrow> rng \<Rightarrow> ('k, 'v) call list \<Rightarrow> ('k, 'v) SkipList outcome" where
  "run s g [] = ok s"
| "run s g (c # cs) = andthen (perform s g c) (\<lambda>(s, g). run s g cs)"

text \<open>The pairs a traversal yields, in its order.\<close>

definition traverse :: "('k, 'v) SkipList \<Rightarrow> ('k \<times> 'v) list outcome" where
  "traverse s = process_all s (\<lambda>k v acc. acc @ [(k, v)]) []"

section \<open>Definitions for the properties\<close>

subsection \<open>Reading the free store\<close>

text \<open>
  The node that is live at an address.
\<close>

definition node_of :: "('k, 'v) heap \<Rightarrow> addr \<Rightarrow> ('k, 'v) Node option" where
  "node_of h a = (if a < length h then h ! a else None)"

text \<open>
  The successor at level \<open>i\<close> of the node at \<open>a\<close>: \<open>a->forward_[i]\<close>, where the node is live and has
  that slot.
\<close>

definition succ_at :: "('k, 'v) heap \<Rightarrow> nat \<Rightarrow> addr \<Rightarrow> ptr" where
  "succ_at h i a =
     (case node_of h a of
        None \<Rightarrow> None
      | Some n \<Rightarrow> if i < length (forward n) then forward n ! i else None)"

text \<open>
  The node at \<open>a\<close> is live and has a slot for level \<open>i\<close>.
\<close>

definition wide :: "('k, 'v) heap \<Rightarrow> nat \<Rightarrow> addr \<Rightarrow> bool" where
  "wide h i a = (case node_of h a of None \<Rightarrow> False | Some n \<Rightarrow> i < length (forward n))"

text \<open>
  The fields of the node at an address.
\<close>

definition key_of :: "('k, 'v) heap \<Rightarrow> addr \<Rightarrow> 'k" where
  "key_of h a = nkey (the (node_of h a))"

definition value_of :: "('k, 'v) heap \<Rightarrow> addr \<Rightarrow> 'v" where
  "value_of h a = nvalue (the (node_of h a))"

definition level_of :: "('k, 'v) heap \<Rightarrow> addr \<Rightarrow> nat" where
  "level_of h a = node_level (the (node_of h a))"

text \<open>
  The store after \<open>a->forward_[i] = q\<close>, and after \<open>a->value_ = v\<close>.
\<close>

definition upd_forward :: "('k, 'v) heap \<Rightarrow> addr \<Rightarrow> nat \<Rightarrow> ptr \<Rightarrow> ('k, 'v) heap" where
  "upd_forward h a i q =
     h[a := Some ((the (node_of h a))\<lparr>forward := (forward (the (node_of h a)))[i := q]\<rparr>)]"

definition upd_value :: "('k, 'v) heap \<Rightarrow> addr \<Rightarrow> 'v \<Rightarrow> ('k, 'v) heap" where
  "upd_value h a v = h[a := Some ((the (node_of h a))\<lparr>nvalue := v\<rparr>)]"

subsection \<open>Chains of successors\<close>

text \<open>
  \<open>path f p as q\<close>: from the pointer \<open>p\<close>, following \<open>f\<close> visits the nodes \<open>as\<close> in order and
  ends with the pointer \<open>q\<close>.
\<close>

primrec path :: "(addr \<Rightarrow> ptr) \<Rightarrow> ptr \<Rightarrow> addr list \<Rightarrow> ptr \<Rightarrow> bool" where
  "path f p [] q = (p = q)"
| "path f p (a # as) q = (p = Some a \<and> path f (f a) as q)"

subsection \<open>The representation of an index\<close>

text \<open>
  The keys strictly increase along \<open>as\<close>.
\<close>

definition ascending :: "('k::linorder, 'v) heap \<Rightarrow> addr list \<Rightarrow> bool" where
  "ascending h as = sorted_wrt (\<lambda>a b. key_of h a < key_of h b) as"

text \<open>
  The nodes of \<open>as\<close> that take part in level \<open>i\<close>.
\<close>

definition at_level :: "('k, 'v) heap \<Rightarrow> nat \<Rightarrow> addr list \<Rightarrow> addr list" where
  "at_level h i as = filter (\<lambda>a. i \<le> level_of h a) as"

text \<open>
  The store holds an index with header \<open>hdr\<close> and nodes \<open>as\<close>, in the order of level 0: the
  header has \<open>MAX_LEVEL\<close> + 1 slots, every node has its level + 1 slots, the keys increase,
  and at each level the chain from the header runs through the nodes of that level and ends
  in the null pointer.
\<close>

definition hrepr :: "('k::linorder, 'v) heap \<Rightarrow> addr \<Rightarrow> addr list \<Rightarrow> bool" where
  "hrepr h hdr as \<longleftrightarrow>
     hdr \<notin> set as \<and>
     (\<exists>n. node_of h hdr = Some n \<and> length (forward n) = MAX_LEVEL + 1) \<and>
     (\<forall>a\<in>set as. \<exists>n. node_of h a = Some n \<and> length (forward n) = node_level n + 1 \<and>
        node_level n \<le> MAX_LEVEL) \<and>
     ascending h as \<and>
     (\<forall>i\<le>MAX_LEVEL. path (succ_at h i) (succ_at h i hdr) (at_level h i as) None)"

text \<open>
  The nodes with a key less than \<open>k\<close>, and the others.
\<close>

definition below :: "('k::linorder, 'v) heap \<Rightarrow> 'k \<Rightarrow> addr list \<Rightarrow> addr list" where
  "below h k as = filter (\<lambda>a. key_of h a < k) as"

definition from_key :: "('k::linorder, 'v) heap \<Rightarrow> 'k \<Rightarrow> addr list \<Rightarrow> addr list" where
  "from_key h k as = filter (\<lambda>a. \<not> key_of h a < k) as"

text \<open>
  The last node of level \<open>i\<close> with a key less than \<open>k\<close>, or the header: where the walk for
  \<open>k\<close> leaves level \<open>i\<close>, and what it records in \<open>update[i]\<close>.
\<close>

definition pred_at :: "('k::linorder, 'v) heap \<Rightarrow> addr \<Rightarrow> addr list \<Rightarrow> 'k \<Rightarrow> nat \<Rightarrow> addr" where
  "pred_at h hdr as k i = last (hdr # at_level h i (below h k as))"

text \<open>
  The node that holds the key \<open>k\<close>.
\<close>

definition find_key :: "('k::linorder, 'v) heap \<Rightarrow> 'k \<Rightarrow> addr list \<Rightarrow> addr option" where
  "find_key h k as =
     (case from_key h k as of [] \<Rightarrow> None | d # ds \<Rightarrow> if key_of h d = k then Some d else None)"

text \<open>
  The SkipList object represents the nodes \<open>as\<close>: its store does, no node is above the
  current level, a node is at the current level unless that is 0, and the lock is free.
\<close>

definition repr :: "('k::linorder, 'v) SkipList \<Rightarrow> addr \<Rightarrow> addr list \<Rightarrow> bool" where
  "repr s hdr as \<longleftrightarrow>
     header s = Some hdr \<and> hrepr (memory s) hdr as \<and>
     current_level s \<le> MAX_LEVEL \<and>
     (\<forall>a\<in>set as. level_of (memory s) a \<le> current_level s) \<and>
     (current_level s = 0 \<or> (\<exists>a\<in>set as. level_of (memory s) a = current_level s)) \<and>
     mutex s = Unlocked"

text \<open>
  Two stores agree at an address when the nodes there have the same key, the same level and
  as many slots, or none is live in either.
\<close>

definition frame :: "('k, 'v) Node \<Rightarrow> 'k \<times> nat \<times> nat" where
  "frame n = (nkey n, node_level n, length (forward n))"

definition agree :: "('k, 'v) heap \<Rightarrow> ('k, 'v) heap \<Rightarrow> addr \<Rightarrow> bool" where
  "agree h h' a \<longleftrightarrow> map_option frame (node_of h a) = map_option frame (node_of h' a)"

text \<open>
  The pairs of the nodes \<open>as\<close>.
\<close>

definition entries :: "('k, 'v) heap \<Rightarrow> addr list \<Rightarrow> ('k \<times> 'v) list" where
  "entries h as = map (\<lambda>a. (key_of h a, value_of h a)) as"

subsection \<open>What an index holds\<close>

text \<open>
  The pairs of an index, in ascending order of the keys, after a key is bound to a value and
  after a key is removed.
\<close>

definition put_entry :: "'k::linorder \<Rightarrow> 'v \<Rightarrow> ('k \<times> 'v) list \<Rightarrow> ('k \<times> 'v) list" where
  "put_entry k v kvs = filter (\<lambda>e. fst e < k) kvs @ (k, v) # filter (\<lambda>e. k < fst e) kvs"

definition remove_entry :: "'k \<Rightarrow> ('k \<times> 'v) list \<Rightarrow> ('k \<times> 'v) list" where
  "remove_entry k kvs = filter (\<lambda>e. fst e \<noteq> k) kvs"

text \<open>
  The index holds exactly the pairs \<open>kvs\<close>, in this order.
\<close>

definition holds :: "('k::linorder, 'v) SkipList \<Rightarrow> ('k \<times> 'v) list \<Rightarrow> bool" where
  "holds s kvs \<longleftrightarrow> (\<exists>hdr as. repr s hdr as \<and> entries (memory s) as = kvs)"

text \<open>
  The pairs after a call.
\<close>

fun apply_call :: "('k::linorder \<times> 'v) list \<Rightarrow> ('k, 'v) call \<Rightarrow> ('k \<times> 'v) list" where
  "apply_call kvs (Insert k v) = put_entry k v kvs"
| "apply_call kvs (Search k v) = kvs"
| "apply_call kvs (Delete k) = remove_entry k kvs"
| "apply_call kvs Clear = []"
| "apply_call kvs Traverse = kvs"

text \<open>
  What the calls say a key is bound to, read from the most recent call back: the value of
  the latest insert of the key, unless a delete of the key or a clear came after it.
\<close>

fun latest :: "('k, 'v) call list \<Rightarrow> 'k \<Rightarrow> 'v option" where
  "latest [] k = None"
| "latest (Insert k' v # older) k = (if k' = k then Some v else latest older k)"
| "latest (Delete k' # older) k = (if k' = k then None else latest older k)"
| "latest (Clear # older) k = None"
| "latest (Search k' v # older) k = latest older k"
| "latest (Traverse # older) k = latest older k"

definition stored :: "('k, 'v) call list \<Rightarrow> 'k \<Rightarrow> 'v option" where
  "stored cs k = latest (rev cs) k"

text \<open>The value a call returned, when it returned.\<close>

definition returned :: "('a \<times> 'b) outcome \<Rightarrow> 'a option" where
  "returned m = (case m of Some (Inr (r, rest)) \<Rightarrow> Some r | _ \<Rightarrow> None)"

text \<open>The nodes that follow the header at level \<open>i\<close>, in order, up to the null pointer.\<close>

definition level_chain :: "('k, 'v) SkipList \<Rightarrow> nat \<Rightarrow> addr list \<Rightarrow> bool" where
  "level_chain s i as =
     (case header s of
        None \<Rightarrow> False
      | Some hdr \<Rightarrow> path (succ_at (memory s) i) (succ_at (memory s) i hdr) as None)"

subsection \<open>The text of a snapshot\<close>

text \<open>The line of an entry, without its newline.\<close>

definition entry_line :: "int \<Rightarrow> string \<Rightarrow> string" where
  "entry_line k v = write_int k @ [delimiter] @ v"

text \<open>The text that \<open>dump\<close> writes for the pairs of a traversal.\<close>

definition snapshot :: "(int \<times> string) list \<Rightarrow> string" where
  "snapshot kvs = concat (map (\<lambda>(k, v). entry_line k v @ [newline]) kvs)"

text \<open>\<open>dump\<close>, then a store constructed on the file that it wrote, then its traversal.\<close>

definition reload ::
  "(int, string) SkipList \<Rightarrow> string \<Rightarrow> filesystem \<Rightarrow> int \<Rightarrow> rng \<Rightarrow> (int \<times> string) list outcome" where
  "reload s p fs k0 g =
     andthen (dump \<lparr>skip_list = s, file_path = p\<rparr> fs) (\<lambda>(st, fs', errs).
     andthen (KVStore_new p k0 fs' g) (\<lambda>(st', g'). traverse (skip_list st')))"

subsection \<open>Examples\<close>

text \<open>
  The calls of main.cpp on keys 1, 3 and 7, with a generator whose first two draws are
  below \<open>P_FACTOR\<close>: the node of key 1 gets level 2, the others level 0.
\<close>

definition example_rng :: rng where
  "example_rng = (\<lambda>i. if i < 2 then 0 else 1)"

definition example_calls :: "(int, string) call list" where
  "example_calls = [Insert 1 ''good'', Insert 3 ''good'', Insert 7 ''study'', Delete 3]"

definition example_index :: "(int, string) SkipList" where
  "example_index =
     \<lparr>memory =
        [Some \<lparr>nkey = 0, nvalue = [], node_level = 32,
               forward = [Some 1, Some 1, Some 1] @ replicate 30 None\<rparr>,
         Some \<lparr>nkey = 1, nvalue = ''good'', node_level = 2, forward = [Some 3, None, None]\<rparr>,
         None,
         Some \<lparr>nkey = 7, nvalue = ''study'', node_level = 0, forward = [None]\<rparr>],
      header = Some 0, current_level = 2, element_count = 2, mutex = Unlocked\<rparr>"

text \<open>
  The store of main.cpp on the example index.
\<close>

definition example_store :: "(int, string) KVStore" where
  "example_store = \<lparr>skip_list = example_index, file_path = ''store/dumpFile''\<rparr>"

text \<open>The example index while another thread holds its lock exclusively.\<close>

definition locked_index :: "(int, string) SkipList" where
  "locked_index = example_index\<lparr>mutex := Exclusive\<rparr>"

text \<open>
  File systems: every path can be written and none read; no path can be opened; every path
  reads as an empty file.
\<close>

definition open_files :: filesystem where
  "open_files = \<lparr>readable = (\<lambda>p. None), writable = (\<lambda>p. True)\<rparr>"

definition no_files :: filesystem where
  "no_files = \<lparr>readable = (\<lambda>p. None), writable = (\<lambda>p. False)\<rparr>"

definition empty_files :: filesystem where
  "empty_files = \<lparr>readable = (\<lambda>p. Some []), writable = (\<lambda>p. False)\<rparr>"

text \<open>
  A value of two lines, and the index after \<open>insert_element(1, value)\<close> on an empty one.
\<close>

definition two_line_value :: string where
  "two_line_value = [CHR ''a'', newline, CHR ''b'']"

definition two_line_index :: "(int, string) SkipList" where
  "two_line_index =
     \<lparr>memory =
        [Some \<lparr>nkey = 0, nvalue = [], node_level = 32,
               forward = [Some 1, Some 1, Some 1] @ replicate 30 None\<rparr>,
         Some \<lparr>nkey = 1, nvalue = two_line_value, node_level = 2, forward = [None, None, None]\<rparr>],
      header = Some 0, current_level = 2, element_count = 1, mutex = Unlocked\<rparr>"

section \<open>Sequencing of outcomes\<close>

lemma andthen_ok [simp]: "andthen (ok x) f = f x"
  by (simp add: andthen_def ok_def)

lemma andthen_fault [simp]: "andthen (fault e) f = fault e"
  by (simp add: andthen_def fault_def)

lemma andthen_None [simp]: "andthen None f = None"
  by (simp add: andthen_def)

lemma ok_neq [simp]: "ok x \<noteq> fault e" "fault e \<noteq> ok x" "ok x \<noteq> None" "fault e \<noteq> None"
  "None \<noteq> ok x" "None \<noteq> fault e"
  by (simp_all add: ok_def fault_def)

lemma ok_inject [simp]: "(ok x = ok y) = (x = y)"
  by (simp add: ok_def)

section \<open>Reading the free store\<close>

lemma wide_live: "wide h i a \<Longrightarrow> \<exists>n. node_of h a = Some n \<and> i < length (forward n)"
  by (simp add: wide_def split: option.splits)

lemma wide_less: "wide h i a \<Longrightarrow> j \<le> i \<Longrightarrow> wide h j a"
  by (auto simp: wide_def split: option.splits)

lemma node_of_in_range: "node_of h a = Some n \<Longrightarrow> a < length h"
  by (simp add: node_of_def split: if_splits)

lemma deref_node_of:
  "deref h (Some a) = (case node_of h a of None \<Rightarrow> fault DanglingPointer | Some n \<Rightarrow> ok n)"
  by (simp add: deref_def node_of_def)

lemma get_forward_wide: "wide h i a \<Longrightarrow> get_forward h (Some a) i = ok (succ_at h i a)"
  by (auto simp: get_forward_def deref_node_of wide_def succ_at_def split: option.splits)

lemma set_forward_wide:
  "wide h i a \<Longrightarrow> set_forward h (Some a) i q = ok (upd_forward h a i q)"
  by (auto simp: set_forward_def deref_node_of wide_def upd_forward_def split: option.splits)

lemma node_of_upd_forward:
  "wide h i a \<Longrightarrow>
   node_of (upd_forward h a i q) b =
     (if b = a then Some ((the (node_of h a))\<lparr>forward := (forward (the (node_of h a)))[i := q]\<rparr>)
      else node_of h b)"
  by (auto simp: upd_forward_def node_of_def wide_def split: option.splits if_splits)

lemma succ_at_upd_forward:
  "wide h i a \<Longrightarrow>
   succ_at (upd_forward h a i q) j b = (if j = i \<and> b = a then q else succ_at h j b)"
  by (auto simp: succ_at_def node_of_upd_forward wide_def nth_list_update split: option.splits)

lemma wide_upd_forward: "wide h i a \<Longrightarrow> wide (upd_forward h a i q) j b = wide h j b"
  by (auto simp: node_of_upd_forward wide_def split: option.splits)

lemma key_of_upd_forward: "wide h i a \<Longrightarrow> key_of (upd_forward h a i q) b = key_of h b"
  by (auto simp: node_of_upd_forward key_of_def)

lemma value_of_upd_forward: "wide h i a \<Longrightarrow> value_of (upd_forward h a i q) b = value_of h b"
  by (auto simp: node_of_upd_forward value_of_def)

lemma level_of_upd_forward: "wide h i a \<Longrightarrow> level_of (upd_forward h a i q) b = level_of h b"
  by (auto simp: node_of_upd_forward level_of_def)

lemma length_upd_forward: "length (upd_forward h a i q) = length h"
  by (simp add: upd_forward_def)

section \<open>Chains of successors\<close>

lemma path_append: "path f p (as @ bs) q = (\<exists>m. path f p as m \<and> path f m bs q)"
  by (induction as arbitrary: p) auto

lemma path_end: "path f (f c) as q \<Longrightarrow> q = f (last (c # as))"
  by (induction as arbitrary: c) auto

lemma path_split:
  "path f (f c) (as @ bs) q \<Longrightarrow>
   path f (f c) as (f (last (c # as))) \<and> path f (f (last (c # as))) bs q"
  by (induction as arbitrary: c) auto

lemma path_cong_on: "(\<And>a. a \<in> set as \<Longrightarrow> f a = g a) \<Longrightarrow> path f p as q = path g p as q"
  by (induction as arbitrary: p) auto

lemma path_unique: "path f p as None \<Longrightarrow> path f p bs None \<Longrightarrow> as = bs"
proof (induction as arbitrary: p bs)
  case Nil
  then show ?case by (cases bs) auto
next
  case (Cons a as)
  then show ?case by (cases bs) auto
qed

section \<open>The walk along one level\<close>

lemma walk_right_chain:
  assumes "path (succ_at h i) (succ_at h i c) bs None"
    and "wide h i c" and "\<forall>b\<in>set bs. wide h i b"
  shows "walk_right h k i (Some c) = ok (Some (last (c # takeWhile (\<lambda>b. key_of h b < k) bs)))"
  using assms
proof (induction bs arbitrary: c)
  case Nil
  then show ?case
    by (subst walk_right.simps) (simp add: get_forward_wide)
next
  case (Cons b bs)
  from Cons.prems have nx: "succ_at h i c = Some b" and rest: "path (succ_at h i) (succ_at h i b) bs None"
    and wb: "wide h i b" and wbs: "\<forall>b\<in>set bs. wide h i b"
    by auto
  from wb obtain n where n: "node_of h b = Some n"
    by (auto dest: wide_live)
  show ?case
  proof (cases "key_of h b < k")
    case True
    with Cons.IH [OF rest wb wbs] Cons.prems(2) nx n show ?thesis
      by (subst walk_right.simps) (simp add: get_forward_wide deref_node_of key_of_def)
  next
    case False
    with Cons.prems(2) nx n show ?thesis
      by (subst walk_right.simps) (simp add: get_forward_wide deref_node_of key_of_def)
  qed
qed

section \<open>Sorted lists\<close>

lemma takeWhile_filter_sorted:
  "sorted_wrt (\<lambda>x y. f x < f y) xs \<Longrightarrow>
   takeWhile (\<lambda>x. f x < (k::'a::linorder)) xs = filter (\<lambda>x. f x < k) xs"
proof (induction xs)
  case Nil
  then show ?case by simp
next
  case (Cons x xs)
  show ?case
  proof (cases "f x < k")
    case True
    with Cons show ?thesis by simp
  next
    case False
    with Cons.prems have "\<forall>y\<in>set xs. \<not> f y < k" by auto
    then have "filter (\<lambda>x. f x < k) xs = []" by (simp add: filter_empty_conv)
    with False show ?thesis by simp
  qed
qed

lemma sorted_partition:
  "sorted_wrt (\<lambda>x y. f x < f y) xs \<Longrightarrow>
   filter (\<lambda>x. f x < (k::'a::linorder)) xs @ filter (\<lambda>x. \<not> f x < k) xs = xs"
proof (induction xs)
  case Nil
  then show ?case by simp
next
  case (Cons x xs)
  show ?case
  proof (cases "f x < k")
    case True
    with Cons show ?thesis by simp
  next
    case False
    with Cons.prems have "\<forall>y\<in>set xs. \<not> f y < k" by auto
    then have "filter (\<lambda>x. f x < k) xs = []" "filter (\<lambda>x. \<not> f x < k) xs = xs"
      by (simp_all add: filter_empty_conv filter_id_conv)
    with False show ?thesis by simp
  qed
qed

lemma sorted_wrt_key_distinct:
  fixes f :: "'b \<Rightarrow> 'a::linorder"
  shows "sorted_wrt (\<lambda>x y. f x < f y) xs \<Longrightarrow> distinct (map f xs)"
proof (induction xs)
  case Nil
  then show ?case by simp
next
  case (Cons x xs)
  then have "\<forall>y\<in>set xs. f x < f y" and "distinct (map f xs)"
    by simp_all
  then show ?case by fastforce
qed

lemma sorted_wrt_distinct:
  fixes f :: "'b \<Rightarrow> 'a::linorder"
  shows "sorted_wrt (\<lambda>x y. f x < f y) xs \<Longrightarrow> distinct xs"
  by (drule sorted_wrt_key_distinct) (simp add: distinct_map)

section \<open>The representation of an index in the free store\<close>

lemma hrepr_wide_header: "hrepr h hdr as \<Longrightarrow> i \<le> MAX_LEVEL \<Longrightarrow> wide h i hdr"
  by (auto simp: hrepr_def wide_def)

lemma hrepr_node:
  "hrepr h hdr as \<Longrightarrow> a \<in> set as \<Longrightarrow>
   \<exists>n. node_of h a = Some n \<and> length (forward n) = node_level n + 1 \<and> node_level n \<le> MAX_LEVEL"
  unfolding hrepr_def by blast

lemma hrepr_wide_node:
  assumes "hrepr h hdr as" "a \<in> set as" "i \<le> level_of h a"
  shows "wide h i a"
proof -
  from hrepr_node [OF assms(1,2)] obtain n
    where "node_of h a = Some n" "length (forward n) = node_level n + 1"
    by blast
  with assms(3) show ?thesis
    by (simp add: wide_def level_of_def)
qed

lemma hrepr_level_le:
  assumes "hrepr h hdr as" "a \<in> set as"
  shows "level_of h a \<le> MAX_LEVEL"
proof -
  from hrepr_node [OF assms] obtain n
    where "node_of h a = Some n" "node_level n \<le> MAX_LEVEL"
    by blast
  then show ?thesis
    by (simp add: level_of_def)
qed

lemma hrepr_path:
  "hrepr h hdr as \<Longrightarrow> i \<le> MAX_LEVEL \<Longrightarrow> path (succ_at h i) (succ_at h i hdr) (at_level h i as) None"
  by (simp add: hrepr_def)

lemma hrepr_split: "hrepr h hdr as \<Longrightarrow> as = below h k as @ from_key h k as"
  unfolding hrepr_def ascending_def below_def from_key_def
  by (elim conjE) (rule sorted_partition [symmetric])

lemma at_level_append: "at_level h i (xs @ ys) = at_level h i xs @ at_level h i ys"
  by (simp add: at_level_def)

lemma at_level_split:
  "hrepr h hdr as \<Longrightarrow> at_level h i as = at_level h i (below h k as) @ at_level h i (from_key h k as)"
  using hrepr_split [of h hdr as k] at_level_append [of h i "below h k as" "from_key h k as"]
  by simp

lemma pred_at_cases:
  "pred_at h hdr as k i = hdr \<or>
   (pred_at h hdr as k i \<in> set as \<and> i \<le> level_of h (pred_at h hdr as k i) \<and>
    key_of h (pred_at h hdr as k i) < k)"
proof (cases "at_level h i (below h k as) = []")
  case True
  then show ?thesis by (simp add: pred_at_def)
next
  case False
  then have "last (at_level h i (below h k as)) \<in> set (at_level h i (below h k as))"
    by (rule last_in_set)
  moreover have "pred_at h hdr as k i = last (at_level h i (below h k as))"
    using False by (simp add: pred_at_def)
  ultimately have "pred_at h hdr as k i \<in> set (at_level h i (below h k as))"
    by simp
  then show ?thesis
    by (simp add: at_level_def below_def)
qed

lemma pred_at_wide:
  assumes "hrepr h hdr as" "i \<le> MAX_LEVEL"
  shows "wide h i (pred_at h hdr as k i)"
proof -
  from pred_at_cases [of h hdr as k i] show ?thesis
  proof
    assume "pred_at h hdr as k i = hdr"
    with assms show ?thesis by (simp add: hrepr_wide_header)
  next
    assume "pred_at h hdr as k i \<in> set as \<and> i \<le> level_of h (pred_at h hdr as k i) \<and>
      key_of h (pred_at h hdr as k i) < k"
    with assms(1) show ?thesis by (blast intro: hrepr_wide_node)
  qed
qed

lemma path_around_pred:
  assumes "hrepr h hdr as" "i \<le> MAX_LEVEL"
  shows "path (succ_at h i) (succ_at h i hdr) (at_level h i (below h k as))
           (succ_at h i (pred_at h hdr as k i)) \<and>
         path (succ_at h i) (succ_at h i (pred_at h hdr as k i)) (at_level h i (from_key h k as)) None"
proof -
  have "path (succ_at h i) (succ_at h i hdr)
          (at_level h i (below h k as) @ at_level h i (from_key h k as)) None"
    using hrepr_path [OF assms] at_level_split [OF assms(1), of i k] by simp
  then show ?thesis
    unfolding pred_at_def by (rule path_split)
qed

lemma at_level_below: "at_level h i (below h k as) = filter (\<lambda>b. key_of h b < k) (at_level h i as)"
  by (simp add: at_level_def below_def conj_commute)

lemma hrepr_ascending_level:
  "hrepr h hdr as \<Longrightarrow> sorted_wrt (\<lambda>a b. key_of h a < key_of h b) (at_level h i as)"
  unfolding hrepr_def ascending_def at_level_def
  by (elim conjE) (rule sorted_wrt_filter)

lemma hrepr_wide_level:
  assumes "hrepr h hdr as" "b \<in> set (at_level h i as)"
  shows "wide h i b"
  using assms by (simp add: at_level_def hrepr_wide_node)

lemma walk_right_pred:
  assumes R: "hrepr h hdr as" and i: "i \<le> MAX_LEVEL"
    and c: "c = hdr \<or> (c \<in> set as \<and> i \<le> level_of h c \<and> key_of h c < k)"
  shows "walk_right h k i (Some c) = ok (Some (pred_at h hdr as k i))"
proof -
  let ?L = "at_level h i as"
  let ?P = "\<lambda>b. key_of h b < k"
  have asc: "sorted_wrt (\<lambda>a b. key_of h a < key_of h b) ?L"
    using R by (rule hrepr_ascending_level)
  have wideL: "\<forall>b\<in>set ?L. wide h i b"
    using R by (blast intro: hrepr_wide_level)
  have chain: "path (succ_at h i) (succ_at h i hdr) ?L None"
    using R i by (rule hrepr_path)
  have pred: "pred_at h hdr as k i = last (hdr # filter ?P ?L)"
    by (simp add: pred_at_def at_level_below)
  from c show ?thesis
  proof
    assume "c = hdr"
    moreover have "wide h i hdr"
      using R i by (rule hrepr_wide_header)
    ultimately have "walk_right h k i (Some c) = ok (Some (last (hdr # takeWhile ?P ?L)))"
      using walk_right_chain [OF chain _ wideL, of k] by simp
    then show ?thesis
      by (simp add: pred takeWhile_filter_sorted [OF asc])
  next
    assume inas: "c \<in> set as \<and> i \<le> level_of h c \<and> key_of h c < k"
    then have "c \<in> set ?L"
      by (simp add: at_level_def)
    then obtain A B where L: "?L = A @ c # B"
      by (auto dest: split_list)
    have ascA: "\<forall>a\<in>set A. key_of h a < key_of h c" and ascB: "sorted_wrt (\<lambda>a b. key_of h a < key_of h b) B"
      using asc unfolding L by (simp_all add: sorted_wrt_append)
    have "path (succ_at h i) (succ_at h i hdr) ((A @ [c]) @ B) None"
      using chain unfolding L by simp
    then have "path (succ_at h i) (succ_at h i (last (hdr # A @ [c]))) B None"
      by (blast dest: path_split)
    then have chainB: "path (succ_at h i) (succ_at h i c) B None"
      by simp
    have wc: "wide h i c"
      using R inas by (blast intro: hrepr_wide_node)
    have wB: "\<forall>b\<in>set B. wide h i b"
      using wideL unfolding L by simp
    have fA: "filter ?P A = A"
      using ascA inas by (auto simp: filter_id_conv)
    have "walk_right h k i (Some c) = ok (Some (last (c # takeWhile ?P B)))"
      using chainB wc wB by (rule walk_right_chain)
    also have "takeWhile ?P B = filter ?P B"
      using ascB by (rule takeWhile_filter_sorted)
    also have "last (c # filter ?P B) = last (hdr # filter ?P ?L)"
      unfolding L using inas fA by simp
    finally show ?thesis
      by (simp add: pred)
  qed
qed

lemma search_levels_pred:
  assumes R: "hrepr h hdr as"
  shows "n \<le> MAX_LEVEL \<Longrightarrow>
         c = hdr \<or> (c \<in> set as \<and> n \<le> level_of h c \<and> key_of h c < k) \<Longrightarrow>
         search_levels h k n (Some c) = ok (Some (pred_at h hdr as k 0))"
proof (induction n arbitrary: c)
  case 0
  then show ?case
    using walk_right_pred [OF R, of 0 c k] by simp
next
  case (Suc n)
  have step: "walk_right h k (Suc n) (Some c) = ok (Some (pred_at h hdr as k (Suc n)))"
    using R Suc.prems by (rule walk_right_pred)
  have "pred_at h hdr as k (Suc n) = hdr \<or>
        (pred_at h hdr as k (Suc n) \<in> set as \<and> n \<le> level_of h (pred_at h hdr as k (Suc n)) \<and>
         key_of h (pred_at h hdr as k (Suc n)) < k)"
    using pred_at_cases [of h hdr as k "Suc n"] by auto
  with Suc.IH [of "pred_at h hdr as k (Suc n)"] Suc.prems(1) step show ?case
    by simp
qed

lemma find_predecessors_pred:
  assumes R: "hrepr h hdr as"
  shows "n \<le> MAX_LEVEL \<Longrightarrow> n < length u \<Longrightarrow>
         c = hdr \<or> (c \<in> set as \<and> n \<le> level_of h c \<and> key_of h c < k) \<Longrightarrow>
         \<exists>u'. find_predecessors h k n (Some c) u = ok (Some (pred_at h hdr as k 0), u') \<and>
              length u' = length u \<and>
              (\<forall>j\<le>n. u' ! j = Some (pred_at h hdr as k j)) \<and>
              (\<forall>j>n. u' ! j = u ! j)"
proof (induction n arbitrary: c u)
  case 0
  then show ?case
    using walk_right_pred [OF R, of 0 c k] by (simp add: vec_set_def)
next
  case (Suc n)
  let ?p = "pred_at h hdr as k (Suc n)"
  have step: "walk_right h k (Suc n) (Some c) = ok (Some ?p)"
    using R Suc.prems(1,3) by (rule walk_right_pred)
  have next_ok: "?p = hdr \<or> (?p \<in> set as \<and> n \<le> level_of h ?p \<and> key_of h ?p < k)"
    using pred_at_cases [of h hdr as k "Suc n"] by auto
  have "n \<le> MAX_LEVEL" "n < length (u[Suc n := Some ?p])"
    using Suc.prems by simp_all
  from Suc.IH [OF this next_ok] obtain u' where
    u': "find_predecessors h k n (Some ?p) (u[Suc n := Some ?p]) = ok (Some (pred_at h hdr as k 0), u')"
      "length u' = length u"
      "\<forall>j\<le>n. u' ! j = Some (pred_at h hdr as k j)"
      "\<forall>j>n. u' ! j = (u[Suc n := Some ?p]) ! j"
    by auto
  have "find_predecessors h k (Suc n) (Some c) u = ok (Some (pred_at h hdr as k 0), u')"
    using step u'(1) Suc.prems(2) by (simp add: vec_set_def)
  moreover have "\<forall>j\<le>Suc n. u' ! j = Some (pred_at h hdr as k j)"
  proof (intro allI impI)
    fix j assume "j \<le> Suc n"
    then consider "j \<le> n" | "j = Suc n" by linarith
    then show "u' ! j = Some (pred_at h hdr as k j)"
    proof cases
      case 1
      with u'(3) show ?thesis by simp
    next
      case 2
      with u'(4) Suc.prems(2) show ?thesis by simp
    qed
  qed
  moreover have "\<forall>j>Suc n. u' ! j = u ! j"
    using u'(4) by simp
  ultimately show ?case
    using u'(2) by blast
qed

section \<open>The node that holds a key\<close>

lemma at_level_0: "at_level h 0 as = as"
  by (simp add: at_level_def)

lemma succ_pred_0:
  assumes "hrepr h hdr as"
  shows "succ_at h 0 (pred_at h hdr as k 0) = (case from_key h k as of [] \<Rightarrow> None | d # ds \<Rightarrow> Some d)"
proof -
  have "path (succ_at h 0) (succ_at h 0 (pred_at h hdr as k 0)) (from_key h k as) None"
    using path_around_pred [OF assms, of 0 k] by (simp add: at_level_0)
  then show ?thesis
    by (cases "from_key h k as") auto
qed

lemma from_key_subset: "set (from_key h k as) \<subseteq> set as"
  by (auto simp: from_key_def)

lemma find_key_Some:
  assumes R: "hrepr h hdr as"
  shows "find_key h k as = Some d \<longleftrightarrow> d \<in> set as \<and> key_of h d = k"
proof
  assume "find_key h k as = Some d"
  then obtain ds where "from_key h k as = d # ds" "key_of h d = k"
    by (auto simp: find_key_def split: list.splits if_splits)
  then show "d \<in> set as \<and> key_of h d = k"
    using from_key_subset [of h k as] by auto
next
  assume d: "d \<in> set as \<and> key_of h d = k"
  then have "d \<in> set (from_key h k as)"
    by (simp add: from_key_def)
  then obtain e es where es: "from_key h k as = e # es"
    by (cases "from_key h k as") auto
  have "sorted_wrt (\<lambda>a b. key_of h a < key_of h b) (from_key h k as)"
    using R unfolding hrepr_def ascending_def from_key_def
    by (elim conjE) (rule sorted_wrt_filter)
  then have lt: "\<forall>b\<in>set es. key_of h e < key_of h b"
    unfolding es by simp
  have "e \<in> set (from_key h k as)"
    by (simp add: es)
  then have ge: "\<not> key_of h e < k"
    by (simp add: from_key_def)
  have "d = e"
  proof (rule ccontr)
    assume "d \<noteq> e"
    with \<open>d \<in> set (from_key h k as)\<close> es have "d \<in> set es" by simp
    with lt have "key_of h e < key_of h d" by blast
    with d ge show False by simp
  qed
  with d es show "find_key h k as = Some d"
    by (simp add: find_key_def)
qed

lemma find_key_None:
  assumes R: "hrepr h hdr as"
  shows "find_key h k as = None \<longleftrightarrow> k \<notin> key_of h ` set as"
proof -
  have "find_key h k as \<noteq> None \<longleftrightarrow> (\<exists>d. d \<in> set as \<and> key_of h d = k)"
    using find_key_Some [OF R, of k] by auto
  then show ?thesis by blast
qed

lemma key_matches_succ_pred:
  assumes R: "hrepr h hdr as"
  shows "key_matches h (succ_at h 0 (pred_at h hdr as k 0)) k = ok (find_key h k as \<noteq> None)"
proof (cases "from_key h k as")
  case Nil
  then show ?thesis
    by (simp add: succ_pred_0 [OF R] key_matches_def find_key_def)
next
  case (Cons d ds)
  then have "d \<in> set as"
    using from_key_subset [of h k as] by auto
  then obtain n where "node_of h d = Some n"
    using hrepr_node [OF R] by blast
  with Cons show ?thesis
    by (simp add: succ_pred_0 [OF R] key_matches_def find_key_def deref_node_of key_of_def)
qed

lemma find_key_succ_pred:
  assumes R: "hrepr h hdr as" and "find_key h k as = Some d"
  shows "succ_at h 0 (pred_at h hdr as k 0) = Some d"
  using assms(2) by (auto simp: succ_pred_0 [OF R] find_key_def split: list.splits if_splits)

section \<open>The representation of a SkipList\<close>

lemma repr_header: "repr s hdr as \<Longrightarrow> header s = Some hdr"
  by (simp add: repr_def)

lemma repr_hrepr: "repr s hdr as \<Longrightarrow> hrepr (memory s) hdr as"
  by (simp add: repr_def)

lemma repr_level: "repr s hdr as \<Longrightarrow> current_level s \<le> MAX_LEVEL"
  by (simp add: repr_def)

lemma repr_mutex: "repr s hdr as \<Longrightarrow> mutex s = Unlocked"
  by (simp add: repr_def)

lemma lock_shared_free:
  "mutex s = Unlocked \<Longrightarrow> lock_shared s = ok (s\<lparr>mutex := SharedBy (Suc 0)\<rparr>)"
  by (simp add: lock_shared_def)

lemma unlock_shared_one:
  "mutex s = Unlocked \<Longrightarrow> unlock_shared (s\<lparr>mutex := SharedBy (Suc 0)\<rparr>) = s"
  by (simp add: unlock_shared_def)

lemma lock_unique_free: "mutex s = Unlocked \<Longrightarrow> lock_unique s = ok (s\<lparr>mutex := Exclusive\<rparr>)"
  by (simp add: lock_unique_def)

lemma unlock_unique_locked: "mutex s = Unlocked \<Longrightarrow> unlock_unique (s\<lparr>mutex := Exclusive\<rparr>) = s"
  by (simp add: unlock_unique_def)

lemma search_element_repr:
  assumes R: "repr s hdr as"
  shows "search_element s k v =
         ok (case find_key (memory s) k as of
               None \<Rightarrow> (False, v, s)
             | Some d \<Rightarrow> (True, value_of (memory s) d, s))"
proof -
  let ?h = "memory s"
  let ?p = "pred_at ?h hdr as k 0"
  note H = repr_hrepr [OF R]
  have walk: "search_levels ?h k (current_level s) (Some hdr) = ok (Some ?p)"
    using H repr_level [OF R] by (rule search_levels_pred) simp
  have fwd: "get_forward ?h (Some ?p) 0 = ok (succ_at ?h 0 ?p)"
    using pred_at_wide [OF H, of 0 k] by (simp add: get_forward_wide)
  note km = key_matches_succ_pred [OF H, of k]
  show ?thesis
  proof (cases "find_key ?h k as")
    case None
    with walk fwd km show ?thesis
      by (simp add: search_element_def lock_shared_free [OF repr_mutex [OF R]]
          unlock_shared_one [OF repr_mutex [OF R]] repr_header [OF R])
  next
    case (Some d)
    then have "d \<in> set as"
      using find_key_Some [OF H] by blast
    then obtain n where "node_of ?h d = Some n"
      using hrepr_node [OF H] by blast
    with Some walk fwd km find_key_succ_pred [OF H Some] show ?thesis
      by (simp add: search_element_def lock_shared_free [OF repr_mutex [OF R]]
          unlock_shared_one [OF repr_mutex [OF R]] repr_header [OF R] deref_node_of value_of_def)
  qed
qed

section \<open>Stores that agree on a node\<close>

lemma agree_refl: "agree h h a"
  by (simp add: agree_def)

lemma agree_trans: "agree h h' a \<Longrightarrow> agree h' h'' a \<Longrightarrow> agree h h'' a"
  by (simp add: agree_def)

lemma agree_key_of: "agree h h' a \<Longrightarrow> key_of h' a = key_of h a"
  by (cases "node_of h a"; cases "node_of h' a") (simp_all add: agree_def key_of_def frame_def)

lemma agree_level_of: "agree h h' a \<Longrightarrow> level_of h' a = level_of h a"
  by (cases "node_of h a"; cases "node_of h' a") (simp_all add: agree_def level_of_def frame_def)

lemma agree_wide: "agree h h' a \<Longrightarrow> wide h' i a = wide h i a"
  by (cases "node_of h a"; cases "node_of h' a") (simp_all add: agree_def wide_def frame_def)

lemma agree_node:
  assumes "agree h h' a" "node_of h a = Some n"
  shows "\<exists>n'. node_of h' a = Some n' \<and> nkey n' = nkey n \<and> node_level n' = node_level n \<and>
           length (forward n') = length (forward n)"
  using assms by (cases "node_of h' a") (simp_all add: agree_def frame_def)

lemma agree_upd_forward: "wide h i a \<Longrightarrow> agree h (upd_forward h a i q) b"
  by (auto simp: agree_def node_of_upd_forward frame_def wide_def split: option.splits)

lemma at_level_agree:
  "\<forall>a\<in>set as. agree h h' a \<Longrightarrow> at_level h' i as = at_level h i as"
  unfolding at_level_def by (rule filter_cong) (simp_all add: agree_level_of [of h h'])

lemma ascending_agree:
  assumes "\<forall>a\<in>set as. agree h h' a" "ascending h as"
  shows "ascending h' as"
proof -
  have "sorted_wrt (\<lambda>a b. key_of h a < key_of h b) as"
    using assms(2) by (simp add: ascending_def)
  then have "sorted_wrt (\<lambda>a b. key_of h' a < key_of h' b) as"
  proof (rule sorted_wrt_mono_rel [rotated])
    fix x y assume "x \<in> set as" "y \<in> set as" "key_of h x < key_of h y"
    with assms(1) show "key_of h' x < key_of h' y"
      by (simp add: agree_key_of [of h h'])
  qed
  then show ?thesis
    by (simp add: ascending_def)
qed

lemma hrepr_transfer:
  assumes R: "hrepr h hdr as"
    and A: "\<forall>a\<in>insert hdr (set as). agree h h' a"
    and S: "\<forall>i\<le>MAX_LEVEL. \<forall>a\<in>insert hdr (set as). succ_at h' i a = succ_at h i a"
  shows "hrepr h' hdr as"
  unfolding hrepr_def
proof (intro conjI ballI allI impI)
  show "hdr \<notin> set as"
    using R by (simp add: hrepr_def)
  show "\<exists>n. node_of h' hdr = Some n \<and> length (forward n) = MAX_LEVEL + 1"
  proof -
    from R obtain n where "node_of h hdr = Some n" "length (forward n) = MAX_LEVEL + 1"
      unfolding hrepr_def by blast
    with agree_node [of h h' hdr n] A show ?thesis by auto
  qed
  show "ascending h' as"
    using A R by (auto intro: ascending_agree simp: hrepr_def)
next
  fix a assume a: "a \<in> set as"
  from hrepr_node [OF R a] obtain n
    where n: "node_of h a = Some n" "length (forward n) = node_level n + 1" "node_level n \<le> MAX_LEVEL"
    by blast
  from a A have "agree h h' a" by simp
  from agree_node [OF this n(1)] n(2,3)
  show "\<exists>n. node_of h' a = Some n \<and> length (forward n) = node_level n + 1 \<and> node_level n \<le> MAX_LEVEL"
    by auto
next
  fix i assume i: "i \<le> MAX_LEVEL"
  have lv: "at_level h' i as = at_level h i as"
    using A by (simp add: at_level_agree)
  have "path (succ_at h' i) (succ_at h i hdr) (at_level h i as) None =
        path (succ_at h i) (succ_at h i hdr) (at_level h i as) None"
    by (rule path_cong_on) (use S i in \<open>simp add: at_level_def\<close>)
  with hrepr_path [OF R i] S i lv
  show "path (succ_at h' i) (succ_at h' i hdr) (at_level h' i as) None"
    by simp
qed

section \<open>Overwriting a value\<close>

lemma node_of_upd_value:
  "node_of h a = Some n \<Longrightarrow>
   node_of (upd_value h a v) b = (if b = a then Some (n\<lparr>nvalue := v\<rparr>) else node_of h b)"
  by (auto simp: upd_value_def node_of_def split: if_splits)

lemma set_value_live: "node_of h a = Some n \<Longrightarrow> set_value h (Some a) v = ok (upd_value h a v)"
  by (simp add: set_value_def deref_node_of upd_value_def)

lemma agree_upd_value: "node_of h a = Some n \<Longrightarrow> agree h (upd_value h a v) b"
  by (simp add: agree_def node_of_upd_value frame_def)

lemma succ_at_upd_value: "node_of h a = Some n \<Longrightarrow> succ_at (upd_value h a v) i b = succ_at h i b"
  by (simp add: succ_at_def node_of_upd_value)

lemma value_of_upd_value:
  "node_of h a = Some n \<Longrightarrow> value_of (upd_value h a v) b = (if b = a then v else value_of h b)"
  by (simp add: value_of_def node_of_upd_value)

lemma hrepr_upd_value:
  assumes "hrepr h hdr as" "node_of h a = Some n"
  shows "hrepr (upd_value h a v) hdr as"
  using assms(1)
  by (rule hrepr_transfer) (simp_all add: agree_upd_value [OF assms(2)] succ_at_upd_value [OF assms(2)])

section \<open>The loops of insert_element and delete_element\<close>

lemma raise_levels_spec:
  "r < length u \<Longrightarrow>
   \<exists>u'. raise_levels u p i r = ok u' \<and> length u' = length u \<and>
        (\<forall>j. u' ! j = (if i \<le> j \<and> j \<le> r then p else u ! j))"
proof (induction "Suc r - i" arbitrary: i u)
  case 0
  then have "r < i" by simp
  then show ?case
    by (subst raise_levels.simps) auto
next
  case (Suc m)
  then have le: "i \<le> r" and m: "m = Suc r - Suc i" and len: "r < length (u[i := p])"
    by simp_all
  from Suc.hyps(1) [OF m len] obtain u' where
    u': "raise_levels (u[i := p]) p (Suc i) r = ok u'" "length u' = length u"
      "\<forall>j. u' ! j = (if Suc i \<le> j \<and> j \<le> r then p else (u[i := p]) ! j)"
    by auto
  have "raise_levels u p i r = ok u'"
    using le Suc.prems u'(1) by (subst raise_levels.simps) (simp add: vec_set_def)
  moreover have "\<forall>j. u' ! j = (if i \<le> j \<and> j \<le> r then p else u ! j)"
  proof
    fix j
    show "u' ! j = (if i \<le> j \<and> j \<le> r then p else u ! j)"
    proof (cases "j = i")
      case True
      with u'(3) le Suc.prems show ?thesis by simp
    next
      case False
      with u'(3) show ?thesis by auto
    qed
  qed
  ultimately show ?case
    using u'(2) by blast
qed

lemma link_levels_spec:
  assumes N: "\<forall>j\<le>r. wide h j n"
    and W: "\<forall>j. i \<le> j \<and> j \<le> r \<longrightarrow> j < length u \<and> (\<exists>p. u ! j = Some p \<and> p \<noteq> n \<and> wide h j p)"
  shows "\<exists>h'. link_levels h u (Some n) i r = ok h' \<and>
           (\<forall>a. agree h h' a \<and> value_of h' a = value_of h a) \<and>
           (\<forall>j a. succ_at h' j a =
              (if i \<le> j \<and> j \<le> r
               then (if a = the (u ! j) then Some n
                     else if a = n then succ_at h j (the (u ! j)) else succ_at h j a)
               else succ_at h j a))"
  using assms
proof (induction "Suc r - i" arbitrary: i h)
  case 0
  then have "r < i" by simp
  then show ?case
    by (subst link_levels.simps) (auto simp: agree_refl)
next
  case (Suc m)
  then have le: "i \<le> r" and m: "m = Suc r - Suc i"
    by simp_all
  from Suc.prems(2) le obtain p where
    p: "i < length u" "u ! i = Some p" "p \<noteq> n" "wide h i p"
    by blast
  have wn: "wide h i n"
    using Suc.prems(1) le by simp
  define h1 where "h1 = upd_forward h n i (succ_at h i p)"
  define h2 where "h2 = upd_forward h1 p i (Some n)"
  have wp1: "wide h1 i p"
    using p(4) wn by (simp add: h1_def wide_upd_forward)
  have wide2: "\<And>j a. wide h2 j a = wide h j a"
    using wn wp1 by (simp add: h1_def h2_def wide_upd_forward)
  have succ2: "\<And>j a. succ_at h2 j a =
      (if j = i \<and> a = p then Some n else if j = i \<and> a = n then succ_at h i p else succ_at h j a)"
    using wn wp1 by (simp add: h1_def h2_def succ_at_upd_forward)
  have agree2: "\<And>a. agree h h2 a"
    using wn wp1 agree_trans [OF agree_upd_forward agree_upd_forward] by (simp add: h1_def h2_def)
  have value2: "\<And>a. value_of h2 a = value_of h a"
    using wn wp1 by (simp add: h1_def h2_def value_of_upd_forward)
  have N2: "\<forall>j\<le>r. wide h2 j n"
    using Suc.prems(1) by (simp add: wide2)
  have W2: "\<forall>j. Suc i \<le> j \<and> j \<le> r \<longrightarrow>
              j < length u \<and> (\<exists>p. u ! j = Some p \<and> p \<noteq> n \<and> wide h2 j p)"
    using Suc.prems(2) by (simp add: wide2)
  from Suc.hyps(1) [OF m N2 W2] obtain h' where
    h': "link_levels h2 u (Some n) (Suc i) r = ok h'"
      "\<forall>a. agree h2 h' a \<and> value_of h' a = value_of h2 a"
      "\<forall>j a. succ_at h' j a =
              (if Suc i \<le> j \<and> j \<le> r
               then (if a = the (u ! j) then Some n
                     else if a = n then succ_at h2 j (the (u ! j)) else succ_at h2 j a)
               else succ_at h2 j a)"
    by blast
  have run: "link_levels h u (Some n) i r = ok h'"
    using le p wn wp1 h'(1)
    by (subst link_levels.simps)
      (simp add: vec_get_def get_forward_wide set_forward_wide h1_def [symmetric] h2_def [symmetric])
  have frame: "\<forall>a. agree h h' a \<and> value_of h' a = value_of h a"
    using h'(2) agree2 value2 by (auto intro: agree_trans)
  have succ: "\<forall>j a. succ_at h' j a =
              (if i \<le> j \<and> j \<le> r
               then (if a = the (u ! j) then Some n
                     else if a = n then succ_at h j (the (u ! j)) else succ_at h j a)
               else succ_at h j a)"
  proof (intro allI)
    fix j a
    consider "j = i" | "Suc i \<le> j" "j \<le> r" | "j < i" | "r < j"
      by linarith
    then show "succ_at h' j a =
              (if i \<le> j \<and> j \<le> r
               then (if a = the (u ! j) then Some n
                     else if a = n then succ_at h j (the (u ! j)) else succ_at h j a)
               else succ_at h j a)"
    proof cases
      case 1
      with h'(3) le p show ?thesis by (simp add: succ2)
    next
      case 2
      with h'(3) show ?thesis by (simp add: succ2)
    next
      case 3
      with h'(3) show ?thesis by (simp add: succ2)
    next
      case 4
      with h'(3) le show ?thesis by (simp add: succ2)
    qed
  qed
  from run frame succ show ?case by blast
qed

lemma unlink_levels_spec:
  assumes D: "\<forall>j\<le>m. wide h j d"
    and U: "\<forall>j. i \<le> j \<and> j \<le> m \<longrightarrow>
              j < length u \<and> (\<exists>p. u ! j = Some p \<and> wide h j p \<and> succ_at h j p = Some d)"
    and E: "m < lvl \<longrightarrow>
              Suc m < length u \<and> (\<exists>p. u ! Suc m = Some p \<and> wide h (Suc m) p \<and> succ_at h (Suc m) p \<noteq> Some d)"
    and B: "m \<le> lvl" "i \<le> Suc m"
  shows "\<exists>h'. unlink_levels h u (Some d) i lvl = ok h' \<and>
           (\<forall>a. agree h h' a \<and> value_of h' a = value_of h a) \<and>
           (\<forall>j a. succ_at h' j a =
              (if i \<le> j \<and> j \<le> m \<and> a = the (u ! j) then succ_at h j d else succ_at h j a))"
  using assms
proof (induction "Suc m - i" arbitrary: i h)
  case 0
  then have i: "i = Suc m" by simp
  have "unlink_levels h u (Some d) i lvl = ok h"
  proof (cases "m < lvl")
    case True
    with "0.prems"(3) obtain p where
      "Suc m < length u" "u ! Suc m = Some p" "wide h (Suc m) p" "succ_at h (Suc m) p \<noteq> Some d"
      by blast
    then show ?thesis
      unfolding i by (subst unlink_levels.simps) (simp add: vec_get_def get_forward_wide)
  next
    case False
    then show ?thesis
      unfolding i by (subst unlink_levels.simps) simp
  qed
  then show ?case
    using i by (auto simp: agree_refl)
next
  case (Suc n)
  then have le: "i \<le> m" and n: "n = Suc m - Suc i"
    by simp_all
  from Suc.prems(2) le obtain p where
    p: "i < length u" "u ! i = Some p" "wide h i p" "succ_at h i p = Some d"
    by blast
  have wd: "wide h i d"
    using Suc.prems(1) le by simp
  define h1 where "h1 = upd_forward h p i (succ_at h i d)"
  have wide1: "\<And>j a. wide h1 j a = wide h j a"
    using p(3) by (simp add: h1_def wide_upd_forward)
  have succ1: "\<And>j a. succ_at h1 j a = (if j = i \<and> a = p then succ_at h i d else succ_at h j a)"
    using p(3) by (simp add: h1_def succ_at_upd_forward)
  have agree1: "\<And>a. agree h h1 a"
    using p(3) by (simp add: h1_def agree_upd_forward)
  have value1: "\<And>a. value_of h1 a = value_of h a"
    using p(3) by (simp add: h1_def value_of_upd_forward)
  have D1: "\<forall>j\<le>m. wide h1 j d"
    using Suc.prems(1) by (simp add: wide1)
  have U1: "\<forall>j. Suc i \<le> j \<and> j \<le> m \<longrightarrow>
              j < length u \<and> (\<exists>p. u ! j = Some p \<and> wide h1 j p \<and> succ_at h1 j p = Some d)"
    using Suc.prems(2) by (simp add: wide1 succ1)
  have E1: "m < lvl \<longrightarrow>
              Suc m < length u \<and>
              (\<exists>p. u ! Suc m = Some p \<and> wide h1 (Suc m) p \<and> succ_at h1 (Suc m) p \<noteq> Some d)"
    using Suc.prems(3) le by (simp add: wide1 succ1)
  have B1: "Suc i \<le> Suc m"
    using le by simp
  from Suc.hyps(1) [OF n D1 U1 E1 Suc.prems(4) B1] obtain h' where
    h': "unlink_levels h1 u (Some d) (Suc i) lvl = ok h'"
      "\<forall>a. agree h1 h' a \<and> value_of h' a = value_of h1 a"
      "\<forall>j a. succ_at h' j a =
              (if Suc i \<le> j \<and> j \<le> m \<and> a = the (u ! j) then succ_at h1 j d else succ_at h1 j a)"
    by blast
  have run: "unlink_levels h u (Some d) i lvl = ok h'"
    using le Suc.prems(4) p wd h'(1)
    by (subst unlink_levels.simps)
      (simp add: vec_get_def get_forward_wide set_forward_wide h1_def [symmetric])
  have frame: "\<forall>a. agree h h' a \<and> value_of h' a = value_of h a"
    using h'(2) agree1 value1 by (auto intro: agree_trans)
  have succ: "\<forall>j a. succ_at h' j a =
              (if i \<le> j \<and> j \<le> m \<and> a = the (u ! j) then succ_at h j d else succ_at h j a)"
  proof (intro allI)
    fix j a
    consider "j = i" | "Suc i \<le> j" | "j < i"
      by linarith
    then show "succ_at h' j a =
              (if i \<le> j \<and> j \<le> m \<and> a = the (u ! j) then succ_at h j d else succ_at h j a)"
    proof cases
      case 1
      with h'(3) le p show ?thesis by (simp add: succ1)
    next
      case 2
      with h'(3) show ?thesis by (simp add: succ1)
    next
      case 3
      with h'(3) show ?thesis by (simp add: succ1)
    qed
  qed
  from run frame succ show ?case by blast
qed

lemma lower_level_spec:
  "\<forall>j\<le>lvl. wide h j hdr \<Longrightarrow>
   \<exists>l. lower_level h (Some hdr) lvl = ok l \<and> l \<le> lvl \<and>
       (l = 0 \<or> succ_at h l hdr \<noteq> None) \<and>
       (\<forall>j. l < j \<and> j \<le> lvl \<longrightarrow> succ_at h j hdr = None)"
proof (induction lvl)
  case 0
  then show ?case
    by (subst lower_level.simps) simp
next
  case (Suc lvl)
  show ?case
  proof (cases "succ_at h (Suc lvl) hdr = None")
    case True
    from Suc obtain l where
      l: "lower_level h (Some hdr) lvl = ok l" "l \<le> lvl" "l = 0 \<or> succ_at h l hdr \<noteq> None"
        "\<forall>j. l < j \<and> j \<le> lvl \<longrightarrow> succ_at h j hdr = None"
      by auto
    have "lower_level h (Some hdr) (Suc lvl) = ok l"
      using True Suc.prems l(1) by (subst lower_level.simps) (simp add: get_forward_wide)
    moreover have "\<forall>j. l < j \<and> j \<le> Suc lvl \<longrightarrow> succ_at h j hdr = None"
      using l(4) True by (auto simp: le_Suc_eq)
    ultimately show ?thesis
      using l(2,3) by auto
  next
    case False
    then have "lower_level h (Some hdr) (Suc lvl) = ok (Suc lvl)"
      using Suc.prems by (subst lower_level.simps) (auto simp: get_forward_wide)
    with False show ?thesis by auto
  qed
qed

section \<open>Splicing a chain\<close>

lemma path_redirect:
  "path f (f c) as q \<Longrightarrow> distinct (c # as) \<Longrightarrow> g (last (c # as)) = x \<Longrightarrow>
   (\<forall>a\<in>set (c # as). a \<noteq> last (c # as) \<longrightarrow> g a = f a) \<Longrightarrow>
   path g (g c) as x"
proof (induction as arbitrary: c)
  case Nil
  then show ?case by simp
next
  case (Cons a as)
  from Cons.prems(1) have fc: "f c = Some a" and rest: "path f (f a) as q"
    by simp_all
  have "last (a # as) \<in> set (a # as)"
    by (rule last_in_set) simp
  with Cons.prems(2) have "c \<noteq> last (c # a # as)"
    by auto
  with Cons.prems(4) fc have gc: "g c = Some a"
    by simp
  have "path g (g a) as x"
  proof (rule Cons.IH [OF rest])
    show "distinct (a # as)"
      using Cons.prems(2) by simp
    show "g (last (a # as)) = x"
      using Cons.prems(3) by simp
    show "\<forall>b\<in>set (a # as). b \<noteq> last (a # as) \<longrightarrow> g b = f b"
      using Cons.prems(4) by simp
  qed
  with gc show ?case by simp
qed

lemma path_None: "path f None as None \<longleftrightarrow> as = []"
  by (cases as) auto

lemma hrepr_distinct: "hrepr h hdr as \<Longrightarrow> distinct as"
  unfolding hrepr_def ascending_def
  by (elim conjE) (rule sorted_wrt_distinct)

lemma below_subset: "set (below h k as) \<subseteq> set as"
  by (auto simp: below_def)

lemma below_key: "a \<in> set (below h k as) \<Longrightarrow> key_of h a < k"
  by (simp add: below_def)

lemma from_key_key: "a \<in> set (from_key h k as) \<Longrightarrow> \<not> key_of h a < k"
  by (simp add: from_key_def)

lemma below_from_key_disjoint: "set (below h k as) \<inter> set (from_key h k as) = {}"
  by (auto simp: below_def from_key_def)

lemma at_level_subset: "set (at_level h i as) \<subseteq> set as"
  by (auto simp: at_level_def)

lemma pred_at_below:
  "pred_at h hdr as k i = hdr \<or> pred_at h hdr as k i \<in> set (below h k as)"
  using pred_at_cases [of h hdr as k i] by (auto simp: below_def)

lemma distinct_header_below:
  assumes "hrepr h hdr as"
  shows "distinct (hdr # at_level h i (below h k as))"
proof -
  have "distinct (at_level h i (below h k as))"
    using hrepr_distinct [OF assms] by (simp add: at_level_def below_def)
  moreover have "hdr \<notin> set (at_level h i (below h k as))"
    using assms at_level_subset [of h i "below h k as"] below_subset [of h k as]
    by (auto simp: hrepr_def)
  ultimately show ?thesis by simp
qed

lemma pred_at_not_later:
  assumes "hrepr h hdr as"
  shows "pred_at h hdr as k i \<notin> set (from_key h k as)"
proof -
  from pred_at_below [of h hdr as k i] show ?thesis
  proof
    assume "pred_at h hdr as k i = hdr"
    then show ?thesis
      using assms from_key_subset [of h k as] by (auto simp: hrepr_def)
  next
    assume "pred_at h hdr as k i \<in> set (below h k as)"
    then show ?thesis
      using below_from_key_disjoint [of h k as] by blast
  qed
qed

section \<open>Allocation\<close>

lemma node_of_append: "node_of (h @ [x]) a = (if a = length h then x else node_of h a)"
  by (auto simp: node_of_def nth_append)

lemma node_of_fresh: "node_of h (length h) = None"
  by (simp add: node_of_def)

lemma agree_append: "a \<noteq> length h \<Longrightarrow> agree h (h @ [x]) a"
  by (simp add: agree_def node_of_append)

lemma succ_at_append: "a \<noteq> length h \<Longrightarrow> succ_at (h @ [x]) i a = succ_at h i a"
  by (simp add: succ_at_def node_of_append)

lemma value_of_append: "a \<noteq> length h \<Longrightarrow> value_of (h @ [x]) a = value_of h a"
  by (simp add: value_of_def node_of_append)

lemma wide_new: "i \<le> r \<Longrightarrow> wide (h @ [Some (Node_new k v r)]) i (length h)"
  by (simp add: wide_def node_of_append Node_new_def)

lemma hrepr_live_header: "hrepr h hdr as \<Longrightarrow> hdr \<noteq> length h"
  by (auto simp: hrepr_def node_of_fresh)

lemma hrepr_live_node: "hrepr h hdr as \<Longrightarrow> a \<in> set as \<Longrightarrow> a \<noteq> length h"
  using hrepr_node [of h hdr as a] by (auto simp: node_of_fresh)

section \<open>Linking a new node\<close>

lemma hrepr_link:
  assumes R: "hrepr h hdr as" and K: "find_key h k as = None" and r: "r \<le> MAX_LEVEL"
    and h0: "h0 = h @ [Some (Node_new k v r)]"
    and A: "\<forall>a. agree h0 h' a"
    and S: "\<forall>j a. succ_at h' j a =
              (if j \<le> r
               then (if a = pred_at h hdr as k j then Some (length h)
                     else if a = length h then succ_at h0 j (pred_at h hdr as k j)
                     else succ_at h0 j a)
               else succ_at h0 j a)"
  shows "hrepr h' hdr (below h k as @ length h # from_key h k as)"
proof -
  let ?n = "length h"
  let ?lo = "below h k as"
  let ?hi = "from_key h k as"
  have split: "as = ?lo @ ?hi"
    using R by (rule hrepr_split)
  have live: "\<forall>a\<in>insert hdr (set as). a \<noteq> ?n"
    using hrepr_live_header [OF R] hrepr_live_node [OF R] by auto
  have old: "\<And>a. a \<noteq> ?n \<Longrightarrow> agree h h' a"
    using A agree_append [of _ h] agree_trans unfolding h0 by blast
  have old_as: "\<forall>a\<in>insert hdr (set as). agree h h' a"
    using live old by blast
  have "node_of h0 ?n = Some (Node_new k v r)"
    by (simp add: h0 node_of_append)
  with A agree_node [of h0 h' ?n] obtain n' where
    n': "node_of h' ?n = Some n'" "nkey n' = k" "node_level n' = r" "length (forward n') = r + 1"
    by (auto simp: Node_new_def)
  have key_n: "key_of h' ?n = k" and level_n: "level_of h' ?n = r"
    using n' by (simp_all add: key_of_def level_of_def)
  have key_old: "\<And>a. a \<in> set as \<Longrightarrow> key_of h' a = key_of h a"
    using old_as by (simp add: agree_key_of [of h h'])
  have lo_sub: "set ?lo \<subseteq> set as" and hi_sub: "set ?hi \<subseteq> set as"
    by (rule below_subset, rule from_key_subset)
  have key_lo: "\<And>a. a \<in> set ?lo \<Longrightarrow> key_of h' a = key_of h a"
    using lo_sub key_old by blast
  have key_hi: "\<And>a. a \<in> set ?hi \<Longrightarrow> key_of h' a = key_of h a"
    using hi_sub key_old by blast
  have not_key: "\<And>a. a \<in> set as \<Longrightarrow> key_of h a \<noteq> k"
    using K find_key_None [OF R, of k] by auto
  show ?thesis
    unfolding hrepr_def
  proof (intro conjI ballI allI impI)
    show "hdr \<notin> set (?lo @ ?n # ?hi)"
      using R live lo_sub hi_sub by (auto simp: hrepr_def)
    show "\<exists>n. node_of h' hdr = Some n \<and> length (forward n) = MAX_LEVEL + 1"
    proof -
      from R obtain nh where "node_of h hdr = Some nh" "length (forward nh) = MAX_LEVEL + 1"
        unfolding hrepr_def by blast
      with agree_node [of h h' hdr nh] old_as show ?thesis by auto
    qed
    show "ascending h' (?lo @ ?n # ?hi)"
    proof -
      have asc: "sorted_wrt (\<lambda>a b. key_of h a < key_of h b) (?lo @ ?hi)"
        using R split by (simp add: hrepr_def ascending_def)
      have "sorted_wrt (\<lambda>a b. key_of h' a < key_of h' b) (?lo @ ?n # ?hi)"
        unfolding sorted_wrt_append sorted_wrt.simps
      proof (intro conjI ballI)
        show "sorted_wrt (\<lambda>a b. key_of h' a < key_of h' b) ?lo"
        proof (rule sorted_wrt_mono_rel [rotated])
          show "sorted_wrt (\<lambda>a b. key_of h a < key_of h b) ?lo"
            using asc by (simp add: sorted_wrt_append)
        next
          fix x y assume "x \<in> set ?lo" "y \<in> set ?lo" "key_of h x < key_of h y"
          then show "key_of h' x < key_of h' y"
            by (simp add: key_lo)
        qed
        show "sorted_wrt (\<lambda>a b. key_of h' a < key_of h' b) ?hi"
        proof (rule sorted_wrt_mono_rel [rotated])
          show "sorted_wrt (\<lambda>a b. key_of h a < key_of h b) ?hi"
            using asc by (simp add: sorted_wrt_append)
        next
          fix x y assume "x \<in> set ?hi" "y \<in> set ?hi" "key_of h x < key_of h y"
          then show "key_of h' x < key_of h' y"
            by (simp add: key_hi)
        qed
      next
        fix y assume y: "y \<in> set ?hi"
        then have "\<not> key_of h y < k" "key_of h y \<noteq> k" "key_of h' y = key_of h y"
          using from_key_key [of y h k as] not_key hi_sub key_hi by auto
        then show "key_of h' ?n < key_of h' y"
          using key_n by simp
      next
        fix x y assume x: "x \<in> set ?lo" and y: "y \<in> set (?n # ?hi)"
        have kx: "key_of h' x < k"
          using x below_key [of x h k as] key_lo by auto
        show "key_of h' x < key_of h' y"
        proof (cases "y = ?n")
          case True
          with kx key_n show ?thesis by simp
        next
          case False
          with y have "y \<in> set ?hi" by simp
          then have "\<not> key_of h y < k" "key_of h' y = key_of h y"
            using from_key_key [of y h k as] key_hi by auto
          with kx show ?thesis by simp
        qed
      qed
      then show ?thesis
        by (simp add: ascending_def)
    qed
  next
    fix a assume a: "a \<in> set (?lo @ ?n # ?hi)"
    show "\<exists>n. node_of h' a = Some n \<and> length (forward n) = node_level n + 1 \<and> node_level n \<le> MAX_LEVEL"
    proof (cases "a = ?n")
      case True
      with n' r show ?thesis by simp
    next
      case False
      with a lo_sub hi_sub have a_as: "a \<in> set as" by auto
      from hrepr_node [OF R a_as] obtain n
        where n: "node_of h a = Some n" "length (forward n) = node_level n + 1"
          "node_level n \<le> MAX_LEVEL"
        by blast
      from a_as old_as have "agree h h' a" by simp
      from agree_node [OF this n(1)] n(2,3) show ?thesis by auto
    qed
  next
    fix i assume i: "i \<le> MAX_LEVEL"
    let ?f = "succ_at h i"
    let ?g = "succ_at h' i"
    let ?A = "at_level h i ?lo"
    let ?B = "at_level h i ?hi"
    let ?p = "pred_at h hdr as k i"
    have lvA: "at_level h' i ?lo = ?A"
      using old_as lo_sub by (intro at_level_agree) auto
    have lvB: "at_level h' i ?hi = ?B"
      using old_as hi_sub by (intro at_level_agree) auto
    have around: "path ?f (?f hdr) ?A (?f ?p)" "path ?f (?f ?p) ?B None"
      using path_around_pred [OF R i, of k] by simp_all
    have A_sub: "set ?A \<subseteq> set as" and B_sub: "set ?B \<subseteq> set as"
      using at_level_subset [of h i ?lo] at_level_subset [of h i ?hi] lo_sub hi_sub by auto
    have p_old: "?p \<noteq> ?n"
      using pred_at_cases [of h hdr as k i] live by auto
    have p_B: "?p \<notin> set ?B"
      using pred_at_not_later [OF R, of k i] at_level_subset [of h i ?hi] by auto
    have f0: "\<And>a. a \<noteq> ?n \<Longrightarrow> succ_at h0 i a = ?f a"
      by (simp add: h0 succ_at_append)
    show "path ?g (?g hdr) (at_level h' i (?lo @ ?n # ?hi)) None"
    proof (cases "i \<le> r")
      case True
      have g_p: "?g ?p = Some ?n"
        using S True by simp
      have g_n: "?g ?n = ?f ?p"
        using S True p_old f0 by simp
      have g_other: "\<And>a. a \<noteq> ?n \<Longrightarrow> a \<noteq> ?p \<Longrightarrow> ?g a = ?f a"
        using S True f0 by simp
      have first: "path ?g (?g hdr) ?A (Some ?n)"
      proof (rule path_redirect [OF around(1)])
        show "distinct (hdr # ?A)"
          using R by (rule distinct_header_below)
        show "?g (last (hdr # ?A)) = Some ?n"
          using g_p by (simp add: pred_at_def)
        show "\<forall>a\<in>set (hdr # ?A). a \<noteq> last (hdr # ?A) \<longrightarrow> ?g a = ?f a"
          using g_other live A_sub by (auto simp: pred_at_def)
      qed
      have "path ?g (?f ?p) ?B None = path ?f (?f ?p) ?B None"
        by (rule path_cong_on) (use g_other live B_sub p_B in auto)
      with around(2) g_n have second: "path ?g (Some ?n) (?n # ?B) None"
        by simp
      have "at_level h' i (?lo @ ?n # ?hi) = ?A @ ?n # ?B"
        using True lvA lvB level_n by (simp add: at_level_def)
      with first second show ?thesis
        by (auto simp: path_append)
    next
      case False
      have g_old: "\<And>a. a \<noteq> ?n \<Longrightarrow> ?g a = ?f a"
        using S False f0 by simp
      have "at_level h' i (?lo @ ?n # ?hi) = at_level h i as"
        using False lvA lvB level_n at_level_split [OF R, of i k] by (simp add: at_level_def)
      moreover have "path ?g (?f hdr) (at_level h i as) None = path ?f (?f hdr) (at_level h i as) None"
        by (rule path_cong_on) (use g_old live at_level_subset [of h i as] in auto)
      moreover have "?g hdr = ?f hdr"
        using g_old live by simp
      ultimately show ?thesis
        using hrepr_path [OF R i] by simp
    qed
  qed
qed

lemma get_random_level_loop_le:
  "lvl \<le> MAX_LEVEL \<Longrightarrow> fst (get_random_level_loop g lvl) \<le> MAX_LEVEL"
proof (induction g lvl rule: get_random_level_loop.induct)
  case (1 g lvl)
  show ?case
  proof (cases "g 0 < P_FACTOR \<and> lvl < MAX_LEVEL")
    case True
    with "1.IH" show ?thesis
      by (subst get_random_level_loop.simps) simp
  next
    case False
    with "1.prems" show ?thesis
      by (subst get_random_level_loop.simps) auto
  qed
qed

lemma get_random_level_le: "fst (get_random_level g) \<le> MAX_LEVEL"
  by (simp add: get_random_level_def get_random_level_loop_le)

lemma repr_levels: "repr s hdr as \<Longrightarrow> a \<in> set as \<Longrightarrow> level_of (memory s) a \<le> current_level s"
  by (simp add: repr_def)

lemma pred_at_above:
  assumes "repr s hdr as" "current_level s < j"
  shows "pred_at (memory s) hdr as k j = hdr"
proof -
  have "\<forall>a\<in>set (below (memory s) k as). \<not> j \<le> level_of (memory s) a"
    using repr_levels [OF assms(1)] assms(2) below_subset [of "memory s" k as] by fastforce
  then have "at_level (memory s) j (below (memory s) k as) = []"
    by (simp add: at_level_def filter_empty_conv)
  then show ?thesis
    by (simp add: pred_at_def)
qed

lemma predecessors_found:
  assumes R: "repr s hdr as"
  shows "\<exists>u. find_predecessors (memory s) k (current_level s) (Some hdr) (replicate (MAX_LEVEL + 1) None) =
               ok (Some (pred_at (memory s) hdr as k 0), u) \<and>
             length u = MAX_LEVEL + 1 \<and>
             (\<forall>j\<le>current_level s. u ! j = Some (pred_at (memory s) hdr as k j))"
proof -
  have "current_level s < length (replicate (MAX_LEVEL + 1) (None :: ptr))"
    using repr_level [OF R] by simp
  from find_predecessors_pred [OF repr_hrepr [OF R] repr_level [OF R] this, of hdr k]
  show ?thesis by auto
qed

lemma insert_element_steps:
  assumes "lock_unique s = ok s1"
    and "find_predecessors (memory s1) k (current_level s1) (header s1)
           (replicate (MAX_LEVEL + 1) None) = ok (c, u1)"
    and "get_forward (memory s1) c 0 = ok c'"
    and "key_matches (memory s1) c' k = ok False"
    and "get_random_level g = (r, g')"
    and "(if r > current_level s1
          then andthen (raise_levels u1 (header s1) (current_level s1 + 1) r)
                 (\<lambda>update. ok (update, s1\<lparr>current_level := r\<rparr>))
          else ok (u1, s1)) = ok (u2, s2)"
    and "link_levels (memory s2 @ [Some (Node_new k v r)]) u2 (Some (length (memory s2))) 0 r = ok h'"
  shows "insert_element s k v g =
         ok (True, unlock_unique (s2\<lparr>memory := h', element_count := element_count s2 + 1\<rparr>), g')"
  using assms by (simp add: insert_element_def new_Node_def)

lemma insert_element_fresh:
  assumes R: "repr s hdr as" and K: "find_key (memory s) k as = None"
  shows "\<exists>s'. insert_element s k v g = ok (True, s', snd (get_random_level g)) \<and>
           repr s' hdr (below (memory s) k as @ length (memory s) # from_key (memory s) k as) \<and>
           (\<forall>a. a \<noteq> length (memory s) \<longrightarrow>
                key_of (memory s') a = key_of (memory s) a \<and>
                value_of (memory s') a = value_of (memory s) a) \<and>
           key_of (memory s') (length (memory s)) = k \<and>
           value_of (memory s') (length (memory s)) = v \<and>
           element_count s' = element_count s + 1"
proof -
  let ?h = "memory s"
  let ?n = "length ?h"
  let ?cl = "current_level s"
  let ?pred = "pred_at ?h hdr as k"
  define as' where "as' = below ?h k as @ ?n # from_key ?h k as"
  define r where "r = fst (get_random_level g)"
  define g' where "g' = snd (get_random_level g)"
  define h0 where "h0 = ?h @ [Some (Node_new k v r)]"
  define top where "top = max ?cl r"
  note H = repr_hrepr [OF R]
  have r: "r \<le> MAX_LEVEL"
    unfolding r_def by (rule get_random_level_le)
  have rg: "get_random_level g = (r, g')"
    by (simp add: r_def g'_def)
  from predecessors_found [OF R, of k] obtain u1 where
    u1: "find_predecessors ?h k ?cl (Some hdr) (replicate (MAX_LEVEL + 1) None) = ok (Some (?pred 0), u1)"
      "length u1 = MAX_LEVEL + 1" "\<forall>j\<le>?cl. u1 ! j = Some (?pred j)"
    by blast
  have fwd: "get_forward ?h (Some (?pred 0)) 0 = ok (succ_at ?h 0 (?pred 0))"
    using pred_at_wide [OF H, of 0 k] by (simp add: get_forward_wide)
  have km: "key_matches ?h (succ_at ?h 0 (?pred 0)) k = ok False"
    using key_matches_succ_pred [OF H, of k] K by simp
  let ?s1 = "s\<lparr>mutex := Exclusive\<rparr>"
  have "\<exists>u2. (if r > current_level ?s1
               then andthen (raise_levels u1 (header ?s1) (current_level ?s1 + 1) r)
                      (\<lambda>update. ok (update, ?s1\<lparr>current_level := r\<rparr>))
               else ok (u1, ?s1)) =
              ok (u2, ?s1\<lparr>current_level := top\<rparr>) \<and>
            length u2 = MAX_LEVEL + 1 \<and> (\<forall>j\<le>r. u2 ! j = Some (?pred j))"
  proof (cases "?cl < r")
    case True
    have "r < length u1"
      using r u1(2) by simp
    from raise_levels_spec [OF this, of "Some hdr" "?cl + 1"] obtain u2 where
      u2: "raise_levels u1 (Some hdr) (?cl + 1) r = ok u2" "length u2 = length u1"
        "\<forall>j. u2 ! j = (if ?cl + 1 \<le> j \<and> j \<le> r then Some hdr else u1 ! j)"
      by blast
    have "\<forall>j\<le>r. u2 ! j = Some (?pred j)"
    proof (intro allI impI)
      fix j assume "j \<le> r"
      show "u2 ! j = Some (?pred j)"
      proof (cases "j \<le> ?cl")
        case True
        with u2(3) u1(3) show ?thesis by simp
      next
        case False
        with u2(3) \<open>j \<le> r\<close> pred_at_above [OF R, of j k] show ?thesis by simp
      qed
    qed
    moreover have "top = r"
      using True by (simp add: top_def)
    ultimately show ?thesis
      using True u2(1,2) u1(2) by (simp add: repr_header [OF R])
  next
    case False
    then have "top = ?cl"
      by (simp add: top_def)
    with False u1(2,3) show ?thesis by simp
  qed
  then obtain u2 where
    u2: "(if r > current_level ?s1
          then andthen (raise_levels u1 (header ?s1) (current_level ?s1 + 1) r)
                 (\<lambda>update. ok (update, ?s1\<lparr>current_level := r\<rparr>))
          else ok (u1, ?s1)) =
         ok (u2, ?s1\<lparr>current_level := top\<rparr>)"
      "length u2 = MAX_LEVEL + 1" "\<forall>j\<le>r. u2 ! j = Some (?pred j)"
    by blast
  have pred_old: "\<And>j. ?pred j \<noteq> ?n"
    using pred_at_cases [of ?h hdr as k] hrepr_live_header [OF H] hrepr_live_node [OF H] by metis
  have N: "\<forall>j\<le>r. wide h0 j ?n"
    by (simp add: h0_def wide_new)
  have W: "\<forall>j. 0 \<le> j \<and> j \<le> r \<longrightarrow>
             j < length u2 \<and> (\<exists>p. u2 ! j = Some p \<and> p \<noteq> ?n \<and> wide h0 j p)"
  proof (intro allI impI)
    fix j assume j: "0 \<le> j \<and> j \<le> r"
    then have "wide ?h j (?pred j)"
      using pred_at_wide [OF H, of j k] r by simp
    moreover have "agree ?h h0 (?pred j)"
      unfolding h0_def by (rule agree_append) (rule pred_old)
    ultimately have "wide h0 j (?pred j)"
      by (simp add: agree_wide [of ?h h0])
    with j u2(2,3) r pred_old show "j < length u2 \<and> (\<exists>p. u2 ! j = Some p \<and> p \<noteq> ?n \<and> wide h0 j p)"
      by simp
  qed
  from link_levels_spec [OF N W] obtain h' where
    h': "link_levels h0 u2 (Some ?n) 0 r = ok h'"
      "\<forall>a. agree h0 h' a \<and> value_of h' a = value_of h0 a"
      "\<forall>j a. succ_at h' j a =
              (if 0 \<le> j \<and> j \<le> r
               then (if a = the (u2 ! j) then Some ?n
                     else if a = ?n then succ_at h0 j (the (u2 ! j)) else succ_at h0 j a)
               else succ_at h0 j a)"
    by blast
  have S: "\<forall>j a. succ_at h' j a =
              (if j \<le> r
               then (if a = ?pred j then Some ?n
                     else if a = ?n then succ_at h0 j (?pred j) else succ_at h0 j a)
               else succ_at h0 j a)"
    using h'(3) u2(3) by simp
  have H': "hrepr h' hdr as'"
    unfolding as'_def using H K r h0_def _ S by (rule hrepr_link) (use h'(2) in simp)
  define s' where "s' = s\<lparr>memory := h', current_level := top, element_count := element_count s + 1\<rparr>"
  have "insert_element s k v g =
        ok (True, unlock_unique ((?s1\<lparr>current_level := top\<rparr>)
              \<lparr>memory := h', element_count := element_count (?s1\<lparr>current_level := top\<rparr>) + 1\<rparr>), g')"
  proof (rule insert_element_steps [OF lock_unique_free [OF repr_mutex [OF R]] _ _ _ rg u2(1)])
    show "find_predecessors (memory ?s1) k (current_level ?s1) (header ?s1)
            (replicate (MAX_LEVEL + 1) None) = ok (Some (?pred 0), u1)"
      using u1(1) by (simp add: repr_header [OF R])
    show "get_forward (memory ?s1) (Some (?pred 0)) 0 = ok (succ_at ?h 0 (?pred 0))"
      using fwd by simp
    show "key_matches (memory ?s1) (succ_at ?h 0 (?pred 0)) k = ok False"
      using km by simp
    show "link_levels (memory (?s1\<lparr>current_level := top\<rparr>) @ [Some (Node_new k v r)]) u2
            (Some (length (memory (?s1\<lparr>current_level := top\<rparr>)))) 0 r = ok h'"
      using h'(1) by (simp add: h0_def)
  qed
  then have run: "insert_element s k v g = ok (True, s', g')"
    by (simp add: unlock_unique_def s'_def repr_mutex [OF R])
  have old: "\<And>a. a \<noteq> ?n \<Longrightarrow> agree ?h h' a"
    using h'(2) agree_append [of _ ?h] agree_trans unfolding h0_def by blast
  have level_old: "\<And>a. a \<noteq> ?n \<Longrightarrow> level_of h' a = level_of ?h a"
    using old by (simp add: agree_level_of [of ?h h'])
  have new: "node_of h0 ?n = Some (Node_new k v r)"
    by (simp add: h0_def node_of_append)
  with h'(2) agree_node [of h0 h' ?n] obtain n' where
    n': "node_of h' ?n = Some n'" "nkey n' = k" "node_level n' = r"
    by (auto simp: Node_new_def)
  have level_new: "level_of h' ?n = r" and key_new: "key_of h' ?n = k"
    using n' by (simp_all add: level_of_def key_of_def)
  have value_new: "value_of h' ?n = v"
    using h'(2) new by (simp add: value_of_def Node_new_def)
  have frame: "\<forall>a. a \<noteq> ?n \<longrightarrow> key_of h' a = key_of ?h a \<and> value_of h' a = value_of ?h a"
    using old h'(2) by (simp add: agree_key_of [of ?h h'] h0_def value_of_append)
  have sets: "set as' = insert ?n (set as)"
    using hrepr_split [OF H, of k] unfolding as'_def
    by (metis Un_insert_right list.simps(15) set_append)
  have live: "\<forall>a\<in>set as. a \<noteq> ?n"
    using hrepr_live_node [OF H] by blast
  have "repr s' hdr as'"
    unfolding repr_def
  proof (intro conjI ballI)
    show "header s' = Some hdr"
      by (simp add: s'_def repr_header [OF R])
    show "hrepr (memory s') hdr as'"
      using H' by (simp add: s'_def)
    show "current_level s' \<le> MAX_LEVEL"
      using r repr_level [OF R] by (simp add: s'_def top_def)
    show "mutex s' = Unlocked"
      by (simp add: s'_def repr_mutex [OF R])
    show "current_level s' = 0 \<or> (\<exists>a\<in>set as'. level_of (memory s') a = current_level s')"
    proof (cases "?cl < r")
      case True
      then have "level_of h' ?n = top"
        by (simp add: level_new top_def)
      then show ?thesis
        by (auto simp: s'_def sets)
    next
      case False
      then have top: "top = ?cl"
        by (simp add: top_def)
      from R have "?cl = 0 \<or> (\<exists>a\<in>set as. level_of ?h a = ?cl)"
        by (simp add: repr_def)
      then show ?thesis
      proof
        assume "?cl = 0"
        with top show ?thesis by (simp add: s'_def)
      next
        assume "\<exists>a\<in>set as. level_of ?h a = ?cl"
        then obtain a where "a \<in> set as" "level_of ?h a = ?cl"
          by blast
        with live level_old [of a] top have "a \<in> set as'" "level_of h' a = top"
          by (simp_all add: sets)
        then show ?thesis
          by (auto simp: s'_def)
      qed
    qed
  next
    fix a assume "a \<in> set as'"
    then consider "a = ?n" | "a \<in> set as" "a \<noteq> ?n"
      using sets live by auto
    then show "level_of (memory s') a \<le> current_level s'"
    proof cases
      case 1
      then show ?thesis
        by (simp add: s'_def level_new top_def)
    next
      case 2
      with repr_levels [OF R, of a] level_old [of a] show ?thesis
        by (simp add: s'_def top_def)
    qed
  qed
  with run frame key_new value_new show ?thesis
    by (auto simp: s'_def as'_def g'_def)
qed

section \<open>Inserting a key that is present, deleting a key that is absent\<close>

lemma insert_element_present:
  assumes R: "repr s hdr as" and K: "find_key (memory s) k as = Some d"
  shows "insert_element s k v g = ok (True, s\<lparr>memory := upd_value (memory s) d v\<rparr>, g)"
    and "repr (s\<lparr>memory := upd_value (memory s) d v\<rparr>) hdr as"
proof -
  let ?h = "memory s"
  let ?pred = "pred_at ?h hdr as k"
  note H = repr_hrepr [OF R]
  from predecessors_found [OF R, of k] obtain u1 where
    u1: "find_predecessors ?h k (current_level s) (Some hdr) (replicate (MAX_LEVEL + 1) None) =
           ok (Some (?pred 0), u1)"
    by blast
  have fwd: "get_forward ?h (Some (?pred 0)) 0 = ok (Some d)"
    using pred_at_wide [OF H, of 0 k] find_key_succ_pred [OF H K] by (simp add: get_forward_wide)
  have km: "key_matches ?h (Some d) k = ok True"
    using key_matches_succ_pred [OF H, of k] K find_key_succ_pred [OF H K] by simp
  have "d \<in> set as"
    using find_key_Some [OF H] K by blast
  then obtain n where n: "node_of ?h d = Some n"
    using hrepr_node [OF H] by blast
  show "insert_element s k v g = ok (True, s\<lparr>memory := upd_value ?h d v\<rparr>, g)"
    using u1 fwd km set_value_live [OF n, of v] repr_mutex [OF R]
    by (simp add: insert_element_def lock_unique_free repr_header [OF R] unlock_unique_def)
  have "hrepr (upd_value ?h d v) hdr as"
    using H n by (rule hrepr_upd_value)
  moreover have "\<And>a. level_of (upd_value ?h d v) a = level_of ?h a"
    using agree_upd_value [OF n, of v] by (simp add: agree_level_of [of ?h "upd_value ?h d v"])
  ultimately show "repr (s\<lparr>memory := upd_value ?h d v\<rparr>) hdr as"
    using R by (simp add: repr_def)
qed

lemma delete_element_absent:
  assumes R: "repr s hdr as" and K: "find_key (memory s) k as = None"
  shows "delete_element s k = ok (False, s)"
proof -
  let ?h = "memory s"
  let ?pred = "pred_at ?h hdr as k"
  note H = repr_hrepr [OF R]
  from predecessors_found [OF R, of k] obtain u1 where
    u1: "find_predecessors ?h k (current_level s) (Some hdr) (replicate (MAX_LEVEL + 1) None) =
           ok (Some (?pred 0), u1)"
    by blast
  have fwd: "get_forward ?h (Some (?pred 0)) 0 = ok (succ_at ?h 0 (?pred 0))"
    using pred_at_wide [OF H, of 0 k] by (simp add: get_forward_wide)
  have km: "key_matches ?h (succ_at ?h 0 (?pred 0)) k = ok False"
    using key_matches_succ_pred [OF H, of k] K by simp
  show ?thesis
    using u1 fwd km repr_mutex [OF R]
    by (simp add: delete_element_def lock_unique_free repr_header [OF R] unlock_unique_def)
qed

section \<open>Unlinking a node\<close>

lemma find_key_from_key:
  "find_key h k as = Some d \<Longrightarrow> from_key h k as = d # tl (from_key h k as)"
  by (auto simp: find_key_def split: list.splits if_splits)

lemma header_succ_None:
  assumes "hrepr h hdr as" "i \<le> MAX_LEVEL"
  shows "succ_at h i hdr = None \<longleftrightarrow> at_level h i as = []"
  using hrepr_path [OF assms] by (cases "at_level h i as") auto

lemma succ_pred_target:
  assumes R: "hrepr h hdr as" and K: "find_key h k as = Some d" and i: "i \<le> MAX_LEVEL"
  shows "succ_at h i (pred_at h hdr as k i) = Some d \<longleftrightarrow> i \<le> level_of h d"
proof -
  let ?rest = "tl (from_key h k as)"
  have fk: "from_key h k as = d # ?rest"
    using K by (rule find_key_from_key)
  have after: "path (succ_at h i) (succ_at h i (pred_at h hdr as k i)) (at_level h i (d # ?rest)) None"
    using path_around_pred [OF R i, of k] fk by simp
  have "distinct (from_key h k as)"
    using hrepr_distinct [OF R] by (simp add: from_key_def)
  then have "d \<notin> set ?rest"
    using fk by (metis distinct.simps(2))
  then have notin: "d \<notin> set (at_level h i ?rest)"
    using at_level_subset [of h i ?rest] by auto
  show ?thesis
  proof (cases "i \<le> level_of h d")
    case True
    with after show ?thesis by (simp add: at_level_def)
  next
    case False
    with after have "path (succ_at h i) (succ_at h i (pred_at h hdr as k i)) (at_level h i ?rest) None"
      by (simp add: at_level_def)
    with notin False show ?thesis
      by (cases "at_level h i ?rest") auto
  qed
qed

lemma hrepr_unlink:
  assumes R: "hrepr h hdr as" and K: "find_key h k as = Some d"
    and A: "\<forall>a. agree h h1 a"
    and S: "\<forall>j a. succ_at h1 j a =
              (if j \<le> level_of h d \<and> a = pred_at h hdr as k j then succ_at h j d else succ_at h j a)"
  shows "hrepr h1 hdr (below h k as @ tl (from_key h k as))"
proof -
  let ?lo = "below h k as"
  let ?rest = "tl (from_key h k as)"
  have fk: "from_key h k as = d # ?rest"
    using K by (rule find_key_from_key)
  have split: "as = ?lo @ d # ?rest"
    using hrepr_split [OF R, of k] fk by simp
  have sub: "set (?lo @ ?rest) \<subseteq> set as"
    using split by (metis set_append set_subset_Cons sup.mono subset_refl)
  have dist: "distinct (?lo @ d # ?rest)"
    using hrepr_distinct [OF R] split by simp
  have key_h1: "\<And>a. key_of h1 a = key_of h a" and level_h1: "\<And>a. level_of h1 a = level_of h a"
    using A by (simp_all add: agree_key_of [of h h1] agree_level_of [of h h1])
  have lv: "\<And>i xs. at_level h1 i xs = at_level h i xs"
    using A by (simp add: at_level_agree)
  show ?thesis
    unfolding hrepr_def
  proof (intro conjI ballI allI impI)
    show "hdr \<notin> set (?lo @ ?rest)"
      using R sub by (auto simp: hrepr_def)
    show "\<exists>n. node_of h1 hdr = Some n \<and> length (forward n) = MAX_LEVEL + 1"
    proof -
      from R obtain nh where "node_of h hdr = Some nh" "length (forward nh) = MAX_LEVEL + 1"
        unfolding hrepr_def by blast
      with agree_node [of h h1 hdr nh] A show ?thesis by auto
    qed
    show "ascending h1 (?lo @ ?rest)"
    proof -
      have "sorted_wrt (\<lambda>a b. key_of h a < key_of h b) (?lo @ d # ?rest)"
        using R split by (simp add: hrepr_def ascending_def)
      then have "sorted_wrt (\<lambda>a b. key_of h a < key_of h b) (?lo @ ?rest)"
        by (simp add: sorted_wrt_append)
      then show ?thesis
        by (simp add: ascending_def key_h1)
    qed
  next
    fix a assume "a \<in> set (?lo @ ?rest)"
    with sub have a_as: "a \<in> set as" by blast
    from hrepr_node [OF R a_as] obtain n
      where n: "node_of h a = Some n" "length (forward n) = node_level n + 1"
        "node_level n \<le> MAX_LEVEL"
      by blast
    from A have "agree h h1 a" by simp
    from agree_node [OF this n(1)] n(2,3)
    show "\<exists>n. node_of h1 a = Some n \<and> length (forward n) = node_level n + 1 \<and> node_level n \<le> MAX_LEVEL"
      by auto
  next
    fix i assume i: "i \<le> MAX_LEVEL"
    let ?f = "succ_at h i"
    let ?g = "succ_at h1 i"
    let ?A = "at_level h i ?lo"
    let ?B = "at_level h i ?rest"
    let ?p = "pred_at h hdr as k i"
    have around: "path ?f (?f hdr) ?A (?f ?p)" "path ?f (?f ?p) (at_level h i (d # ?rest)) None"
      using path_around_pred [OF R i, of k] fk by simp_all
    have p_B: "?p \<notin> set ?B"
      using pred_at_not_later [OF R, of k i] fk at_level_subset [of h i ?rest]
      by (metis list.set_intros(2) subsetD)
    have goal: "at_level h1 i (?lo @ ?rest) = ?A @ ?B"
      by (simp add: lv at_level_append)
    show "path ?g (?g hdr) (at_level h1 i (?lo @ ?rest)) None"
    proof (cases "i \<le> level_of h d")
      case True
      with around(2) have fp: "?f ?p = Some d" and rest: "path ?f (?f d) ?B None"
        by (simp_all add: at_level_def)
      have g_p: "?g ?p = ?f d"
        using S True by simp
      have g_other: "\<And>a. a \<noteq> ?p \<Longrightarrow> ?g a = ?f a"
        using S by simp
      have first: "path ?g (?g hdr) ?A (?f d)"
      proof (rule path_redirect [OF around(1)])
        show "distinct (hdr # ?A)"
          using R by (rule distinct_header_below)
        show "?g (last (hdr # ?A)) = ?f d"
          using g_p by (simp add: pred_at_def)
        show "\<forall>a\<in>set (hdr # ?A). a \<noteq> last (hdr # ?A) \<longrightarrow> ?g a = ?f a"
          using g_other by (simp add: pred_at_def)
      qed
      have "path ?g (?f d) ?B None = path ?f (?f d) ?B None"
      proof (rule path_cong_on)
        fix a assume "a \<in> set ?B"
        with p_B have "a \<noteq> ?p" by blast
        then show "?g a = ?f a" by (rule g_other)
      qed
      with rest first show ?thesis
        unfolding goal path_append by blast
    next
      case False
      then have g_f: "\<And>a. ?g a = ?f a"
        using S by simp
      from False around have "path ?f (?f hdr) (?A @ ?B) None"
        by (auto simp: path_append at_level_def)
      then show ?thesis
        unfolding goal by (simp add: g_f path_cong_on [of _ ?g ?f])
    qed
  qed
qed

section \<open>Deleting a key that is present\<close>

lemma delete_element_steps:
  assumes "lock_unique s = ok s1"
    and "find_predecessors (memory s1) k (current_level s1) (header s1)
           (replicate (MAX_LEVEL + 1) None) = ok (c, u)"
    and "get_forward (memory s1) c 0 = ok c'"
    and "key_matches (memory s1) c' k = ok True"
    and "unlink_levels (memory s1) u c' 0 (current_level s1) = ok h1"
    and "lower_level h1 (header s1) (current_level s1) = ok l"
    and "delete_Node h1 c' = ok h2"
  shows "delete_element s k =
         ok (True, unlock_unique (s1\<lparr>memory := h2, current_level := l,
                                     element_count := element_count s1 - 1\<rparr>))"
  using assms by (simp add: delete_element_def)

lemma node_of_delete:
  "d < length h \<Longrightarrow> node_of (h[d := None]) a = (if a = d then None else node_of h a)"
  by (auto simp: node_of_def)

lemma delete_Node_live: "node_of h d = Some n \<Longrightarrow> delete_Node h (Some d) = ok (h[d := None])"
  by (simp add: delete_Node_def deref_node_of)

lemma hrepr_delete:
  assumes R: "hrepr h hdr as" and d: "d \<notin> set as" "d \<noteq> hdr" "d < length h"
  shows "hrepr (h[d := None]) hdr as"
  using R
proof (rule hrepr_transfer)
  show "\<forall>a\<in>insert hdr (set as). agree h (h[d := None]) a"
    using d by (auto simp: agree_def node_of_delete)
  show "\<forall>i\<le>MAX_LEVEL. \<forall>a\<in>insert hdr (set as). succ_at (h[d := None]) i a = succ_at h i a"
    using d by (auto simp: succ_at_def node_of_delete)
qed

lemma delete_element_present:
  assumes R: "repr s hdr as" and K: "find_key (memory s) k as = Some d"
  shows "\<exists>s'. delete_element s k = ok (True, s') \<and>
           repr s' hdr (below (memory s) k as @ tl (from_key (memory s) k as)) \<and>
           (\<forall>a. a \<noteq> d \<longrightarrow>
                key_of (memory s') a = key_of (memory s) a \<and>
                value_of (memory s') a = value_of (memory s) a) \<and>
           element_count s' = element_count s - 1"
proof -
  let ?h = "memory s"
  let ?cl = "current_level s"
  let ?pred = "pred_at ?h hdr as k"
  let ?s1 = "s\<lparr>mutex := Exclusive\<rparr>"
  let ?m = "level_of ?h d"
  define as' where "as' = below ?h k as @ tl (from_key ?h k as)"
  note H = repr_hrepr [OF R]
  have d_as: "d \<in> set as"
    using find_key_Some [OF H] K by blast
  then obtain nd where nd: "node_of ?h d = Some nd"
    using hrepr_node [OF H] by blast
  have m_cl: "?m \<le> ?cl"
    using repr_levels [OF R d_as] .
  have cl: "?cl \<le> MAX_LEVEL"
    using R by (rule repr_level)
  from predecessors_found [OF R, of k] obtain u where
    u: "find_predecessors ?h k ?cl (Some hdr) (replicate (MAX_LEVEL + 1) None) = ok (Some (?pred 0), u)"
      "length u = MAX_LEVEL + 1" "\<forall>j\<le>?cl. u ! j = Some (?pred j)"
    by blast
  have fwd: "get_forward ?h (Some (?pred 0)) 0 = ok (Some d)"
    using pred_at_wide [OF H, of 0 k] find_key_succ_pred [OF H K] by (simp add: get_forward_wide)
  have km: "key_matches ?h (Some d) k = ok True"
    using key_matches_succ_pred [OF H, of k] K find_key_succ_pred [OF H K] by simp
  have D: "\<forall>j\<le>?m. wide ?h j d"
    using hrepr_wide_node [OF H d_as] by blast
  have U: "\<forall>j. 0 \<le> j \<and> j \<le> ?m \<longrightarrow>
             j < length u \<and> (\<exists>p. u ! j = Some p \<and> wide ?h j p \<and> succ_at ?h j p = Some d)"
  proof (intro allI impI)
    fix j assume j: "0 \<le> j \<and> j \<le> ?m"
    then have jm: "j \<le> MAX_LEVEL" and jc: "j \<le> ?cl"
      using m_cl cl by simp_all
    have "succ_at ?h j (?pred j) = Some d"
      using succ_pred_target [OF H K jm] j by simp
    with u(2,3) jm jc pred_at_wide [OF H jm, of k]
    show "j < length u \<and> (\<exists>p. u ! j = Some p \<and> wide ?h j p \<and> succ_at ?h j p = Some d)"
      by simp
  qed
  have E: "?m < ?cl \<longrightarrow>
             Suc ?m < length u \<and>
             (\<exists>p. u ! Suc ?m = Some p \<and> wide ?h (Suc ?m) p \<and> succ_at ?h (Suc ?m) p \<noteq> Some d)"
  proof
    assume "?m < ?cl"
    then have jm: "Suc ?m \<le> MAX_LEVEL" and jc: "Suc ?m \<le> ?cl"
      using cl by simp_all
    have "succ_at ?h (Suc ?m) (?pred (Suc ?m)) \<noteq> Some d"
      using succ_pred_target [OF H K jm] by simp
    with u(2,3) jm jc pred_at_wide [OF H jm, of k]
    show "Suc ?m < length u \<and>
          (\<exists>p. u ! Suc ?m = Some p \<and> wide ?h (Suc ?m) p \<and> succ_at ?h (Suc ?m) p \<noteq> Some d)"
      by simp
  qed
  from unlink_levels_spec [OF D U E m_cl] obtain h1 where
    h1: "unlink_levels ?h u (Some d) 0 ?cl = ok h1"
      "\<forall>a. agree ?h h1 a \<and> value_of h1 a = value_of ?h a"
      "\<forall>j a. succ_at h1 j a =
              (if 0 \<le> j \<and> j \<le> ?m \<and> a = the (u ! j) then succ_at ?h j d else succ_at ?h j a)"
    by auto
  have S: "\<forall>j a. succ_at h1 j a =
              (if j \<le> ?m \<and> a = ?pred j then succ_at ?h j d else succ_at ?h j a)"
  proof (intro allI)
    fix j a
    show "succ_at h1 j a = (if j \<le> ?m \<and> a = ?pred j then succ_at ?h j d else succ_at ?h j a)"
    proof (cases "j \<le> ?m")
      case True
      with m_cl u(3) have "the (u ! j) = ?pred j" by simp
      with h1(3) True show ?thesis by simp
    next
      case False
      with h1(3) show ?thesis by simp
    qed
  qed
  have H1: "hrepr h1 hdr as'"
    unfolding as'_def using H K _ S by (rule hrepr_unlink) (use h1(2) in simp)
  have wide_hdr: "\<forall>j\<le>?cl. wide h1 j hdr"
    using hrepr_wide_header [OF H1] cl by simp
  from lower_level_spec [OF wide_hdr] obtain l where
    l: "lower_level h1 (Some hdr) ?cl = ok l" "l \<le> ?cl" "l = 0 \<or> succ_at h1 l hdr \<noteq> None"
      "\<forall>j. l < j \<and> j \<le> ?cl \<longrightarrow> succ_at h1 j hdr = None"
    by blast
  have nd1: "\<exists>n. node_of h1 d = Some n"
    using h1(2) agree_node [of ?h h1 d nd] nd by blast
  then have d_len: "d < length h1"
    by (auto dest: node_of_in_range)
  from nd1 have del: "delete_Node h1 (Some d) = ok (h1[d := None])"
    by (auto intro: delete_Node_live)
  define s' where "s' = s\<lparr>memory := h1[d := None], current_level := l,
                           element_count := element_count s - 1\<rparr>"
  have "delete_element s k =
        ok (True, unlock_unique (?s1\<lparr>memory := h1[d := None], current_level := l,
                                       element_count := element_count ?s1 - 1\<rparr>))"
  proof (rule delete_element_steps [OF lock_unique_free [OF repr_mutex [OF R]]])
    show "find_predecessors (memory ?s1) k (current_level ?s1) (header ?s1)
            (replicate (MAX_LEVEL + 1) None) = ok (Some (?pred 0), u)"
      using u(1) by (simp add: repr_header [OF R])
    show "get_forward (memory ?s1) (Some (?pred 0)) 0 = ok (Some d)"
      using fwd by simp
    show "key_matches (memory ?s1) (Some d) k = ok True"
      using km by simp
    show "unlink_levels (memory ?s1) u (Some d) 0 (current_level ?s1) = ok h1"
      using h1(1) by simp
    show "lower_level h1 (header ?s1) (current_level ?s1) = ok l"
      using l(1) by (simp add: repr_header [OF R])
    show "delete_Node h1 (Some d) = ok (h1[d := None])"
      by (rule del)
  qed
  then have run: "delete_element s k = ok (True, s')"
    by (simp add: unlock_unique_def s'_def repr_mutex [OF R])
  have fk: "from_key ?h k as = d # tl (from_key ?h k as)"
    using K by (rule find_key_from_key)
  have split: "as = below ?h k as @ d # tl (from_key ?h k as)"
    using hrepr_split [OF H, of k] fk by simp
  have "distinct (below ?h k as @ d # tl (from_key ?h k as))"
    using hrepr_distinct [OF H] split by simp
  then have d_out: "d \<notin> set as'"
    by (simp add: as'_def)
  have d_hdr: "d \<noteq> hdr"
    using H d_as by (auto simp: hrepr_def)
  have H2: "hrepr (h1[d := None]) hdr as'"
    using H1 d_out d_hdr d_len by (rule hrepr_delete)
  have sub: "set as' \<subseteq> set as"
    using split unfolding as'_def by (metis set_append set_subset_Cons sup.mono subset_refl)
  have level2: "\<And>a. a \<in> set as' \<Longrightarrow> level_of (h1[d := None]) a = level_of ?h a"
  proof -
    fix a assume "a \<in> set as'"
    with d_out have "a \<noteq> d" by blast
    then have "node_of (h1[d := None]) a = node_of h1 a"
      using d_len by (simp add: node_of_delete)
    then have "level_of (h1[d := None]) a = level_of h1 a"
      by (simp add: level_of_def)
    with h1(2) show "level_of (h1[d := None]) a = level_of ?h a"
      by (simp add: agree_level_of [of ?h h1])
  qed
  have level1: "\<And>a. level_of h1 a = level_of ?h a"
    using h1(2) by (simp add: agree_level_of [of ?h h1])
  have low: "\<And>a. a \<in> set as' \<Longrightarrow> level_of ?h a \<le> l"
  proof (rule ccontr)
    fix a assume a: "a \<in> set as'" and "\<not> level_of ?h a \<le> l"
    then have j: "l < level_of ?h a" "level_of ?h a \<le> ?cl"
      using repr_levels [OF R, of a] sub by auto
    with l(4) have "succ_at h1 (level_of ?h a) hdr = None"
      by simp
    then have "at_level h1 (level_of ?h a) as' = []"
      using header_succ_None [OF H1, of "level_of ?h a"] j(2) cl by simp
    with a show False
      by (auto simp: at_level_def filter_empty_conv level1)
  qed
  have top: "l = 0 \<or> (\<exists>a\<in>set as'. level_of ?h a = l)"
  proof (cases "l = 0")
    case True
    then show ?thesis by simp
  next
    case False
    with l(3) have "succ_at h1 l hdr \<noteq> None" by simp
    then have "at_level h1 l as' \<noteq> []"
      using header_succ_None [OF H1, of l] l(2) cl by simp
    then obtain a where "a \<in> set (at_level h1 l as')"
      by (cases "at_level h1 l as'") auto
    then have "a \<in> set as'" "l \<le> level_of ?h a"
      by (simp_all add: at_level_def level1)
    with low [of a] show ?thesis
      by force
  qed
  have "repr s' hdr as'"
    unfolding repr_def
  proof (intro conjI ballI)
    show "header s' = Some hdr"
      by (simp add: s'_def repr_header [OF R])
    show "hrepr (memory s') hdr as'"
      using H2 by (simp add: s'_def)
    show "current_level s' \<le> MAX_LEVEL"
      using l(2) cl by (simp add: s'_def)
    show "mutex s' = Unlocked"
      by (simp add: s'_def repr_mutex [OF R])
    show "current_level s' = 0 \<or> (\<exists>a\<in>set as'. level_of (memory s') a = current_level s')"
      using top level2 by (auto simp: s'_def)
  next
    fix a assume "a \<in> set as'"
    then show "level_of (memory s') a \<le> current_level s'"
      using low [of a] level2 [of a] by (simp add: s'_def)
  qed
  moreover have "\<forall>a. a \<noteq> d \<longrightarrow>
      key_of (memory s') a = key_of ?h a \<and> value_of (memory s') a = value_of ?h a"
  proof (intro allI impI)
    fix a assume "a \<noteq> d"
    then have "node_of (h1[d := None]) a = node_of h1 a"
      using d_len by (simp add: node_of_delete)
    then have "key_of (h1[d := None]) a = key_of h1 a" "value_of (h1[d := None]) a = value_of h1 a"
      by (simp_all add: key_of_def value_of_def)
    with h1(2) show "key_of (memory s') a = key_of ?h a \<and> value_of (memory s') a = value_of ?h a"
      by (simp add: s'_def agree_key_of [of ?h h1])
  qed
  ultimately show ?thesis
    using run by (auto simp: as'_def s'_def)
qed

section \<open>Traversal and clear\<close>

lemma process_all_loop_chain:
  assumes "path (succ_at h 0) p bs None" and "\<forall>b\<in>set bs. wide h 0 b"
  shows "process_all_loop h f p acc =
         ok (foldl (\<lambda>acc b. f (key_of h b) (value_of h b) acc) acc bs)"
  using assms
proof (induction bs arbitrary: p acc)
  case Nil
  then show ?case
    by (subst process_all_loop.simps) simp
next
  case (Cons b bs)
  then have p: "p = Some b" and rest: "path (succ_at h 0) (succ_at h 0 b) bs None"
    and wb: "wide h 0 b" and wbs: "\<forall>b\<in>set bs. wide h 0 b"
    by simp_all
  from wb obtain n where n: "node_of h b = Some n"
    by (auto dest: wide_live)
  show ?case
    using Cons.IH [OF rest wbs] wb n unfolding p
    by (subst process_all_loop.simps)
      (simp add: deref_node_of get_forward_wide key_of_def value_of_def)
qed

lemma process_all_repr:
  assumes R: "repr s hdr as"
  shows "process_all s f acc =
         ok (foldl (\<lambda>acc b. f (key_of (memory s) b) (value_of (memory s) b) acc) acc as)"
proof -
  note H = repr_hrepr [OF R]
  have "path (succ_at (memory s) 0) (succ_at (memory s) 0 hdr) as None"
    using hrepr_path [OF H, of 0] by (simp add: at_level_0)
  moreover have "\<forall>b\<in>set as. wide (memory s) 0 b"
    using hrepr_wide_node [OF H] by simp
  ultimately show ?thesis
    using hrepr_wide_header [OF H, of 0]
    by (simp add: process_all_def repr_header [OF R] get_forward_wide process_all_loop_chain)
qed

lemma foldl_snoc_map: "foldl (\<lambda>acc b. acc @ [g b]) acc bs = acc @ map g bs"
  by (induction bs arbitrary: acc) simp_all

lemma traverse_repr:
  assumes "repr s hdr as"
  shows "traverse s = ok (entries (memory s) as)"
  using process_all_repr [OF assms, of "\<lambda>k v acc. acc @ [(k, v)]" "[]"]
  by (simp add: traverse_def entries_def foldl_snoc_map)

lemma clear_loop_chain:
  assumes "path (succ_at h 0) p bs None" and "\<forall>b\<in>set bs. wide h 0 b" and "distinct bs"
  shows "\<exists>h'. clear_loop h p = ok h' \<and>
           (\<forall>a. node_of h' a = (if a \<in> set bs then None else node_of h a))"
  using assms
proof (induction bs arbitrary: p h)
  case Nil
  then show ?case
    by (subst clear_loop.simps) simp
next
  case (Cons b bs)
  then have p: "p = Some b" and rest: "path (succ_at h 0) (succ_at h 0 b) bs None"
    and wb: "wide h 0 b" and wbs: "\<forall>c\<in>set bs. wide h 0 c"
    and nb: "b \<notin> set bs" and dist: "distinct bs"
    by simp_all
  from wb obtain n where n: "node_of h b = Some n"
    by (auto dest: wide_live)
  then have len: "b < length h"
    by (rule node_of_in_range)
  let ?h1 = "h[b := None]"
  have node1: "\<And>a. node_of ?h1 a = (if a = b then None else node_of h a)"
    using len by (simp add: node_of_delete)
  have "path (succ_at ?h1 0) (succ_at h 0 b) bs None = path (succ_at h 0) (succ_at h 0 b) bs None"
    by (rule path_cong_on) (use nb in \<open>auto simp: succ_at_def node1\<close>)
  with rest have rest1: "path (succ_at ?h1 0) (succ_at h 0 b) bs None"
    by simp
  have wbs1: "\<forall>c\<in>set bs. wide ?h1 0 c"
    using wbs nb by (auto simp: wide_def node1)
  from Cons.IH [OF rest1 wbs1 dist] obtain h' where
    h': "clear_loop ?h1 (succ_at h 0 b) = ok h'"
      "\<forall>a. node_of h' a = (if a \<in> set bs then None else node_of ?h1 a)"
    by blast
  have "clear_loop h p = ok h'"
    using h'(1) wb delete_Node_live [OF n] unfolding p
    by (subst clear_loop.simps) (simp add: get_forward_wide)
  moreover have "\<forall>a. node_of h' a = (if a \<in> set (b # bs) then None else node_of h a)"
    using h'(2) by (simp add: node1)
  ultimately show ?case by blast
qed

lemma clear_repr:
  assumes R: "repr s hdr as"
  shows "\<exists>s'. clear s = ok s' \<and> repr s' hdr [] \<and> element_count s' = 0"
proof -
  let ?h = "memory s"
  note H = repr_hrepr [OF R]
  have chain: "path (succ_at ?h 0) (succ_at ?h 0 hdr) as None"
    using hrepr_path [OF H, of 0] by (simp add: at_level_0)
  have wide: "\<forall>b\<in>set as. wide ?h 0 b"
    using hrepr_wide_node [OF H] by simp
  from clear_loop_chain [OF chain wide hrepr_distinct [OF H]] obtain h' where
    h': "clear_loop ?h (succ_at ?h 0 hdr) = ok h'"
      "\<forall>a. node_of h' a = (if a \<in> set as then None else node_of ?h a)"
    by blast
  from H obtain nh where nh: "node_of ?h hdr = Some nh" "length (forward nh) = MAX_LEVEL + 1"
    and out: "hdr \<notin> set as"
    unfolding hrepr_def by blast
  have nh': "node_of h' hdr = Some nh"
    using h'(2) nh(1) out by simp
  then have len: "hdr < length h'"
    by (rule node_of_in_range)
  define h'' where "h'' = h'[hdr := Some (nh\<lparr>forward := replicate (length (forward nh)) None\<rparr>)]"
  have fill: "fill_forward h' (Some hdr) = ok h''"
    using nh' by (simp add: fill_forward_def deref_node_of h''_def)
  define fw :: "ptr list" where "fw = replicate (length (forward nh)) None"
  have fw: "length fw = MAX_LEVEL + 1" "\<And>i. i \<le> MAX_LEVEL \<Longrightarrow> fw ! i = None"
  proof -
    show "length fw = MAX_LEVEL + 1"
      using nh(2) by (simp add: fw_def)
    fix i assume "i \<le> MAX_LEVEL"
    then have "i < length (forward nh)"
      using nh(2) by simp
    then show "fw ! i = None"
      unfolding fw_def by (rule nth_replicate)
  qed
  have node'': "node_of h'' hdr = Some (nh\<lparr>forward := fw\<rparr>)"
    using len by (simp add: h''_def node_of_def fw_def)
  define s' where "s' = s\<lparr>memory := h'', current_level := 0, element_count := 0\<rparr>"
  have run: "clear s = ok s'"
    using h'(1) fill hrepr_wide_header [OF H, of 0]
    by (simp add: clear_def repr_header [OF R] get_forward_wide s'_def)
  have "hrepr h'' hdr []"
    unfolding hrepr_def using node'' fw
    by (simp add: ascending_def at_level_def succ_at_def)
  then have "repr s' hdr []"
    using R by (simp add: repr_def s'_def)
  with run show ?thesis
    by (auto simp: s'_def)
qed

section \<open>What an index holds\<close>

lemma entries_append: "entries h (xs @ ys) = entries h xs @ entries h ys"
  by (simp add: entries_def)

lemma entries_cong:
  "(\<And>a. a \<in> set as \<Longrightarrow> key_of h' a = key_of h a \<and> value_of h' a = value_of h a) \<Longrightarrow>
   entries h' as = entries h as"
  by (simp add: entries_def)

lemma entries_filter:
  "filter (\<lambda>e. P (fst e)) (entries h as) = entries h (filter (\<lambda>a. P (key_of h a)) as)"
  by (simp add: entries_def filter_map comp_def)

lemma later_keys:
  assumes R: "hrepr h hdr as"
  shows "filter (\<lambda>a. k < key_of h a) as =
         (case find_key h k as of None \<Rightarrow> from_key h k as | Some d \<Rightarrow> tl (from_key h k as))"
proof -
  let ?lo = "below h k as"
  let ?hi = "from_key h k as"
  have split: "as = ?lo @ ?hi"
    using R by (rule hrepr_split)
  have lo: "filter (\<lambda>a. k < key_of h a) ?lo = []"
  proof -
    have "\<forall>a\<in>set ?lo. \<not> k < key_of h a"
    proof
      fix a assume "a \<in> set ?lo"
      then have "key_of h a < k" by (rule below_key)
      then show "\<not> k < key_of h a" by simp
    qed
    then show ?thesis
      by (simp add: filter_empty_conv)
  qed
  have asc: "sorted_wrt (\<lambda>a b. key_of h a < key_of h b) ?hi"
    using R unfolding hrepr_def ascending_def from_key_def
    by (elim conjE) (rule sorted_wrt_filter)
  have hi: "filter (\<lambda>a. k < key_of h a) ?hi =
            (case find_key h k as of None \<Rightarrow> ?hi | Some d \<Rightarrow> tl ?hi)"
  proof (cases "find_key h k as")
    case None
    then have "\<forall>a\<in>set as. key_of h a \<noteq> k"
      using find_key_None [OF R, of k] by auto
    then have "\<forall>a\<in>set ?hi. k < key_of h a"
      using from_key_key [of _ h k as] from_key_subset [of h k as] by fastforce
    with None show ?thesis
      by (simp add: filter_id_conv)
  next
    case (Some d)
    then have fk: "?hi = d # tl ?hi" and kd: "key_of h d = k"
      using find_key_from_key [of h k as d] find_key_Some [OF R, of k d] by simp_all
    have "\<forall>a\<in>set (tl ?hi). k < key_of h a"
      using asc kd by (subst (asm) fk) simp
    then have "filter (\<lambda>a. k < key_of h a) (tl ?hi) = tl ?hi"
      by (simp add: filter_id_conv)
    then have "filter (\<lambda>a. k < key_of h a) (d # tl ?hi) = tl ?hi"
      using kd by simp
    with Some fk show ?thesis
      by simp
  qed
  have "filter (\<lambda>a. k < key_of h a) as =
        filter (\<lambda>a. k < key_of h a) ?lo @ filter (\<lambda>a. k < key_of h a) ?hi"
    by (subst split) simp
  with lo hi show ?thesis by simp
qed

lemma other_keys:
  assumes R: "hrepr h hdr as"
  shows "filter (\<lambda>a. key_of h a \<noteq> k) as = below h k as @ filter (\<lambda>a. k < key_of h a) as"
proof -
  have "\<And>a. (key_of h a \<noteq> k) = (key_of h a < k \<or> k < key_of h a)"
    by auto
  have "filter (\<lambda>a. key_of h a \<noteq> k) xs =
        filter (\<lambda>a. key_of h a < k) xs @ filter (\<lambda>a. k < key_of h a) xs"
    if "sorted_wrt (\<lambda>a b. key_of h a < key_of h b) xs" for xs
    using that
  proof (induction xs)
    case Nil
    then show ?case by simp
  next
    case (Cons x xs)
    then have IH: "filter (\<lambda>a. key_of h a \<noteq> k) xs =
        filter (\<lambda>a. key_of h a < k) xs @ filter (\<lambda>a. k < key_of h a) xs"
      and gt: "\<forall>y\<in>set xs. key_of h x < key_of h y"
      by simp_all
    show ?case
    proof (cases "key_of h x < k")
      case True
      then have "\<not> k < key_of h x" "key_of h x \<noteq> k" by simp_all
      with IH True show ?thesis by simp
    next
      case False
      with gt have "\<forall>y\<in>set xs. \<not> key_of h y < k"
        by auto
      then have "filter (\<lambda>a. key_of h a < k) xs = []"
        by (simp add: filter_empty_conv)
      with IH False show ?thesis by auto
    qed
  qed
  with R show ?thesis
    by (simp add: hrepr_def ascending_def below_def)
qed

lemma holds_sorted:
  assumes "holds s kvs"
  shows "sorted_wrt (<) (map fst kvs)"
proof -
  from assms obtain hdr as where R: "repr s hdr as" and E: "entries (memory s) as = kvs"
    unfolding holds_def by blast
  have "sorted_wrt (\<lambda>a b. key_of (memory s) a < key_of (memory s) b) as"
    using repr_hrepr [OF R] by (simp add: hrepr_def ascending_def)
  then show ?thesis
    unfolding E [symmetric] by (simp add: entries_def sorted_wrt_map comp_def)
qed

lemma map_of_entries:
  assumes R: "hrepr h hdr as"
  shows "map_of (entries h as) k = map_option (value_of h) (find_key h k as)"
proof (cases "find_key h k as")
  case None
  then have "k \<notin> key_of h ` set as"
    using find_key_None [OF R] by blast
  then have "k \<notin> fst ` set (entries h as)"
    by (force simp: entries_def)
  with None show ?thesis
    by (simp add: map_of_eq_None_iff)
next
  case (Some d)
  then have d: "d \<in> set as" "key_of h d = k"
    using find_key_Some [OF R] by blast+
  have "distinct (map fst (entries h as))"
  proof -
    have "sorted_wrt (\<lambda>a b. key_of h a < key_of h b) as"
      using R by (simp add: hrepr_def ascending_def)
    then have "distinct (map (key_of h) as)"
      by (rule sorted_wrt_key_distinct)
    then show ?thesis
      by (simp add: entries_def comp_def)
  qed
  moreover have "(k, value_of h d) \<in> set (entries h as)"
    using d by (force simp: entries_def)
  ultimately have "map_of (entries h as) k = Some (value_of h d)"
    by (rule map_of_is_SomeI)
  with Some show ?thesis by simp
qed

lemma keys_of_entries: "fst ` set (entries h as) = key_of h ` set as"
  by (force simp: entries_def)

lemma put_entry_entries:
  assumes R: "hrepr h hdr as"
  shows "put_entry k v (entries h as) =
         entries h (below h k as) @ (k, v) #
         entries h (case find_key h k as of None \<Rightarrow> from_key h k as | Some d \<Rightarrow> tl (from_key h k as))"
  unfolding put_entry_def entries_filter [of "\<lambda>x. x < k"] entries_filter [of "\<lambda>x. k < x"]
    later_keys [OF R]
  by (simp add: below_def)

lemma remove_entry_entries:
  assumes R: "hrepr h hdr as"
  shows "remove_entry k (entries h as) =
         entries h (below h k as @
           (case find_key h k as of None \<Rightarrow> from_key h k as | Some d \<Rightarrow> tl (from_key h k as)))"
  unfolding remove_entry_def entries_filter [of "\<lambda>x. x \<noteq> k"] other_keys [OF R] later_keys [OF R]
  by simp

lemma holds_search:
  assumes "holds s kvs"
  shows "search_element s k v =
         ok (case map_of kvs k of None \<Rightarrow> (False, v, s) | Some x \<Rightarrow> (True, x, s))"
proof -
  from assms obtain hdr as where R: "repr s hdr as" and E: "entries (memory s) as = kvs"
    unfolding holds_def by blast
  show ?thesis
    unfolding E [symmetric] search_element_repr [OF R] map_of_entries [OF repr_hrepr [OF R]]
    by (cases "find_key (memory s) k as") simp_all
qed

lemma holds_traverse: "holds s kvs \<Longrightarrow> traverse s = ok kvs"
  unfolding holds_def by (auto simp: traverse_repr)

lemma holds_clear: "holds s kvs \<Longrightarrow> \<exists>s'. clear s = ok s' \<and> holds s' [] \<and> element_count s' = 0"
proof -
  assume "holds s kvs"
  then obtain hdr as where R: "repr s hdr as"
    unfolding holds_def by blast
  from clear_repr [OF R] obtain s' where "clear s = ok s'" "repr s' hdr []" "element_count s' = 0"
    by blast
  moreover have "entries (memory s') [] = []"
    by (simp add: entries_def)
  ultimately show ?thesis
    unfolding holds_def by blast
qed

lemma holds_insert:
  assumes "holds s kvs"
  shows "\<exists>s' g'. insert_element s k v g = ok (True, s', g') \<and> holds s' (put_entry k v kvs) \<and>
           element_count s' = element_count s + (if k \<in> fst ` set kvs then 0 else 1)"
proof -
  from assms obtain hdr as where R: "repr s hdr as" and E: "entries (memory s) as = kvs"
    unfolding holds_def by blast
  let ?h = "memory s"
  note H = repr_hrepr [OF R]
  have keys: "fst ` set kvs = key_of ?h ` set as"
    unfolding E [symmetric] by (rule keys_of_entries)
  show ?thesis
  proof (cases "find_key ?h k as")
    case None
    then have absent: "k \<notin> fst ` set kvs"
      using find_key_None [OF H] keys by simp
    let ?n = "length ?h"
    from insert_element_fresh [OF R None, of v g] obtain s' where
      s': "insert_element s k v g = ok (True, s', snd (get_random_level g))"
        "repr s' hdr (below ?h k as @ ?n # from_key ?h k as)"
        "\<forall>a. a \<noteq> ?n \<longrightarrow> key_of (memory s') a = key_of ?h a \<and> value_of (memory s') a = value_of ?h a"
        "key_of (memory s') ?n = k" "value_of (memory s') ?n = v"
        "element_count s' = element_count s + 1"
      by blast
    have old: "\<And>a. a \<in> set as \<Longrightarrow>
        key_of (memory s') a = key_of ?h a \<and> value_of (memory s') a = value_of ?h a"
      using s'(3) hrepr_live_node [OF H] by blast
    have "entries (memory s') (below ?h k as) = entries ?h (below ?h k as)"
      by (rule entries_cong) (use old below_subset [of ?h k as] in blast)
    moreover have "entries (memory s') (from_key ?h k as) = entries ?h (from_key ?h k as)"
      by (rule entries_cong) (use old from_key_subset [of ?h k as] in blast)
    moreover have "entries (memory s') [?n] = [(k, v)]"
      using s'(4,5) by (simp add: entries_def)
    ultimately have "entries (memory s') (below ?h k as @ ?n # from_key ?h k as) =
        put_entry k v (entries ?h as)"
      using entries_append [of "memory s'" "below ?h k as" "?n # from_key ?h k as"]
        entries_append [of "memory s'" "[?n]" "from_key ?h k as"]
      by (simp add: put_entry_entries [OF H] None)
    with s'(2) have "holds s' (put_entry k v kvs)"
      unfolding holds_def E [symmetric] by blast
    with s'(1,6) absent show ?thesis by auto
  next
    case (Some d)
    then have present: "k \<in> fst ` set kvs" and d: "d \<in> set as" "key_of ?h d = k"
      using find_key_Some [OF H, of k d] keys by auto
    let ?h' = "upd_value ?h d v"
    let ?s' = "s\<lparr>memory := ?h'\<rparr>"
    note ins = insert_element_present [OF R Some, of v]
    from d obtain n where n: "node_of ?h d = Some n"
      using hrepr_node [OF H] by blast
    let ?rest = "tl (from_key ?h k as)"
    have fk: "from_key ?h k as = d # ?rest"
      using Some by (rule find_key_from_key)
    have split: "as = below ?h k as @ d # ?rest"
      using hrepr_split [OF H, of k] fk by simp
    have "distinct (below ?h k as @ d # ?rest)"
      using hrepr_distinct [OF H] split by simp
    then have out: "d \<notin> set (below ?h k as)" "d \<notin> set ?rest"
      by simp_all
    have key': "\<And>a. key_of ?h' a = key_of ?h a"
      using agree_upd_value [OF n, of v] by (simp add: agree_key_of [of ?h ?h'])
    have "entries ?h' (below ?h k as) = entries ?h (below ?h k as)"
      by (rule entries_cong) (use out key' in \<open>auto simp: value_of_upd_value [OF n]\<close>)
    moreover have "entries ?h' ?rest = entries ?h ?rest"
      by (rule entries_cong) (use out key' in \<open>auto simp: value_of_upd_value [OF n]\<close>)
    moreover have "entries ?h' [d] = [(k, v)]"
      using d(2) key' by (simp add: entries_def value_of_upd_value [OF n])
    moreover have "entries ?h' as = entries ?h' (below ?h k as) @ entries ?h' [d] @ entries ?h' ?rest"
      by (subst split) (simp add: entries_def)
    ultimately have "entries ?h' as = put_entry k v (entries ?h as)"
      by (simp add: put_entry_entries [OF H] Some)
    with ins(2) have "holds ?s' (put_entry k v kvs)"
      unfolding holds_def E [symmetric] by auto
    with ins(1) [of g] present show ?thesis by auto
  qed
qed

lemma holds_delete:
  assumes "holds s kvs"
  shows "\<exists>s'. delete_element s k = ok (k \<in> fst ` set kvs, s') \<and> holds s' (remove_entry k kvs) \<and>
           (k \<notin> fst ` set kvs \<longrightarrow> s' = s) \<and>
           element_count s' = element_count s - (if k \<in> fst ` set kvs then 1 else 0)"
proof -
  from assms obtain hdr as where R: "repr s hdr as" and E: "entries (memory s) as = kvs"
    unfolding holds_def by blast
  let ?h = "memory s"
  note H = repr_hrepr [OF R]
  have keys: "fst ` set kvs = key_of ?h ` set as"
    unfolding E [symmetric] by (rule keys_of_entries)
  show ?thesis
  proof (cases "find_key ?h k as")
    case None
    then have absent: "k \<notin> fst ` set kvs"
      using find_key_None [OF H] keys by simp
    have "remove_entry k (entries ?h as) = entries ?h as"
      using hrepr_split [OF H, of k] by (simp add: remove_entry_entries [OF H] None)
    with R have "holds s (remove_entry k kvs)"
      unfolding holds_def E [symmetric] by auto
    with delete_element_absent [OF R None] absent show ?thesis by simp
  next
    case (Some d)
    then have present: "k \<in> fst ` set kvs"
      using find_key_Some [OF H, of k d] keys by auto
    let ?as' = "below ?h k as @ tl (from_key ?h k as)"
    from delete_element_present [OF R Some] obtain s' where
      s': "delete_element s k = ok (True, s')" "repr s' hdr ?as'"
        "\<forall>a. a \<noteq> d \<longrightarrow> key_of (memory s') a = key_of ?h a \<and> value_of (memory s') a = value_of ?h a"
        "element_count s' = element_count s - 1"
      by blast
    have fk: "from_key ?h k as = d # tl (from_key ?h k as)"
      using Some by (rule find_key_from_key)
    have "distinct (below ?h k as @ d # tl (from_key ?h k as))"
      using hrepr_distinct [OF H] hrepr_split [OF H, of k] fk by simp
    then have "d \<notin> set ?as'"
      by simp
    then have "\<And>a. a \<in> set ?as' \<Longrightarrow> a \<noteq> d"
      by blast
    with s'(3) have "entries (memory s') ?as' = entries ?h ?as'"
      by (intro entries_cong) blast
    then have "entries (memory s') ?as' = remove_entry k (entries ?h as)"
      by (simp add: remove_entry_entries [OF H] Some)
    with s'(2) have "holds s' (remove_entry k kvs)"
      unfolding holds_def E [symmetric] by blast
    with s'(1,4) present show ?thesis by auto
  qed
qed

lemma holds_new: "holds (SkipList_new k0 v0) []"
proof -
  let ?s = "SkipList_new k0 v0"
  have mem: "memory ?s = [Some (Node_new k0 v0 MAX_LEVEL)]" and hdr: "header ?s = Some 0"
    and rest: "current_level ?s = 0" "mutex ?s = Unlocked"
    by (simp_all add: SkipList_new_def new_Node_def)
  have node: "node_of (memory ?s) 0 = Some (Node_new k0 v0 MAX_LEVEL)"
    by (simp add: mem node_of_def)
  have nth: "\<And>i. i \<le> MAX_LEVEL \<Longrightarrow> replicate (MAX_LEVEL + 1) (None :: ptr) ! i = None"
    by (rule nth_replicate) simp
  have "hrepr (memory ?s) 0 []"
    unfolding hrepr_def using node nth
    by (simp add: ascending_def at_level_def succ_at_def Node_new_def del: replicate.simps)
  then have "repr ?s 0 []"
    using hdr rest by (simp add: repr_def)
  moreover have "entries (memory ?s) [] = []"
    by (simp add: entries_def)
  ultimately show ?thesis
    unfolding holds_def by blast
qed

section \<open>Sequences of calls on an index\<close>

lemma perform_holds:
  assumes "holds s kvs"
  shows "\<exists>s' g'. perform s g c = ok (s', g') \<and> holds s' (apply_call kvs c)"
proof (cases c)
  case (Insert k v)
  with holds_insert [OF assms, of k v g] show ?thesis by auto
next
  case (Search k v)
  with holds_search [OF assms, of k v] assms show ?thesis
    by (cases "map_of kvs k") auto
next
  case (Delete k)
  with holds_delete [OF assms, of k] show ?thesis by auto
next
  case Clear
  with holds_clear [OF assms] show ?thesis by auto
next
  case Traverse
  with holds_traverse [OF assms] assms show ?thesis
    by (auto simp: traverse_def)
qed

lemma run_holds:
  "holds s kvs \<Longrightarrow> \<exists>s'. run s g cs = ok s' \<and> holds s' (foldl apply_call kvs cs)"
proof (induction cs arbitrary: s g kvs)
  case Nil
  then show ?case by simp
next
  case (Cons c cs)
  from perform_holds [OF Cons.prems, of g c] obtain s1 g1 where
    step: "perform s g c = ok (s1, g1)" "holds s1 (apply_call kvs c)"
    by blast
  from Cons.IH [OF step(2), of g1] step(1) show ?case
    by simp
qed

lemma run_new_holds:
  "\<exists>s. run (SkipList_new k0 v0) g cs = ok s \<and> holds s (foldl apply_call [] cs)"
  using run_holds [OF holds_new] .

lemma reached_holds:
  assumes "run (SkipList_new k0 v0) g cs = ok s" "traverse s = ok kvs"
  shows "holds s kvs"
proof -
  from run_new_holds [of k0 v0 g cs] assms(1) have h: "holds s (foldl apply_call [] cs)"
    by simp
  with holds_traverse [OF h] assms(2) show ?thesis
    by simp
qed

lemma map_of_put_entry:
  "map_of (put_entry k v kvs) k' = (if k' = k then Some v else map_of kvs k')"
proof -
  have less: "\<And>x. map_of (filter (\<lambda>e. fst e < k) kvs) x = (if x < k then map_of kvs x else None)"
    by (induction kvs) auto
  have more: "\<And>x. map_of (filter (\<lambda>e. k < fst e) kvs) x = (if k < x then map_of kvs x else None)"
    by (induction kvs) auto
  show ?thesis
    unfolding put_entry_def map_of_append
    by (cases "k' < k"; cases "k < k'") (auto simp: map_add_def less more split: option.splits)
qed

lemma map_of_remove_entry:
  "map_of (remove_entry k kvs) k' = (if k' = k then None else map_of kvs k')"
  unfolding remove_entry_def by (induction kvs) auto

lemma map_of_calls: "map_of (foldl apply_call [] cs) k = stored cs k"
proof (induction cs rule: rev_induct)
  case Nil
  then show ?case by (simp add: stored_def)
next
  case (snoc c cs)
  then show ?case
    by (cases c) (simp_all add: stored_def map_of_put_entry map_of_remove_entry)
qed

section \<open>An example index\<close>

lemma example_index_reached: "run (SkipList_new 0 []) example_rng example_calls = ok example_index"
  by code_simp

lemma example_index_traverse: "traverse example_index = ok [(1, ''good''), (7, ''study'')]"
  by code_simp

section \<open>Claims about single calls\<close>

text \<open>
  C10. In every state of an index that calls can reach, \<open>search_element\<close> of a key that
  a traversal does not yield returns \<open>false\<close> and leaves the out-parameter \<open>value\<close>
  as the caller passed it, and the index as it was; so does \<open>get\<close> of the store.
\<close>

theorem search_absent_leaves_value:
  assumes "run (SkipList_new k0 v0) g cs = ok s"
    and "traverse s = ok kvs"
    and "k \<notin> fst ` set kvs"
  shows "search_element s k v = ok (False, v, s) \<and>
         get \<lparr>skip_list = s, file_path = p\<rparr> k v = ok (False, v, \<lparr>skip_list = s, file_path = p\<rparr>)"
proof -
  have "holds s kvs"
    using assms(1,2) by (rule reached_holds)
  moreover have "map_of kvs k = None"
    using assms(3) by (simp add: map_of_eq_None_iff)
  ultimately have "search_element s k v = ok (False, v, s)"
    using holds_search [of s kvs k v] by simp
  then show ?thesis
    by (simp add: get_def)
qed

theorem search_absent_leaves_value_witness:
  "search_element example_index 4 ''before'' = ok (False, ''before'', example_index) \<and>
   get \<lparr>skip_list = example_index, file_path = ''store/dumpFile''\<rparr> 4 ''before'' =
     ok (False, ''before'', \<lparr>skip_list = example_index, file_path = ''store/dumpFile''\<rparr>)"
proof -
  have absent: "(4::int) \<notin> fst ` set [(1, ''good''), (7, ''study'')]"
    by simp
  show ?thesis
    using example_index_reached example_index_traverse absent
    by (rule search_absent_leaves_value)
qed

text \<open>
  C4. In every state of an index that calls can reach, \<open>delete_element\<close> of a key that a
  traversal does not yield returns \<open>false\<close> and the index after the call is the index
  before it: the element count, the current level and every node are the same.
\<close>

theorem delete_absent_changes_nothing:
  assumes "run (SkipList_new k0 v0) g cs = ok s"
    and "traverse s = ok kvs"
    and "k \<notin> fst ` set kvs"
  shows "delete_element s k = ok (False, s)"
proof -
  have "holds s kvs"
    using assms(1,2) by (rule reached_holds)
  from holds_delete [OF this, of k] assms(3) show ?thesis
    by auto
qed

theorem delete_absent_changes_nothing_witness:
  "delete_element example_index 3 = ok (False, example_index)"
proof -
  have absent: "(3::int) \<notin> fst ` set [(1, ''good''), (7, ''study'')]"
    by simp
  show ?thesis
    using example_index_reached example_index_traverse absent
    by (rule delete_absent_changes_nothing)
qed

section \<open>Claims about sequences of calls\<close>

text \<open>
  C1. After every finite sequence of calls on an initially empty index (insert and
  delete, and also search, clear and traverse), \<open>search_element\<close> of a key returns
  \<open>true\<close> exactly when the key was inserted and not deleted (or cleared) afterwards, and
  then yields the value of the most recent insert of the key; otherwise it returns
  \<open>false\<close>. The index is not changed by the search.
\<close>

theorem search_after_calls:
  "\<exists>s. run (SkipList_new k0 v0) g cs = ok s \<and>
       (\<forall>k v. search_element s k v =
          ok (case stored cs k of None \<Rightarrow> (False, v, s) | Some x \<Rightarrow> (True, x, s)))"
proof -
  from run_new_holds [of k0 v0 g cs] obtain s where
    s: "run (SkipList_new k0 v0) g cs = ok s" "holds s (foldl apply_call [] cs)"
    by blast
  have "\<forall>k v. search_element s k v =
          ok (case stored cs k of None \<Rightarrow> (False, v, s) | Some x \<Rightarrow> (True, x, s))"
    using holds_search [OF s(2)] by (simp add: map_of_calls)
  with s(1) show ?thesis by blast
qed

theorem search_after_calls_witness:
  "search_element example_index 7 [] = ok (True, ''study'', example_index) \<and>
   search_element example_index 3 [] = ok (False, [], example_index)"
proof -
  from search_after_calls [of 0 "[]" example_rng example_calls] obtain s where
    s: "run (SkipList_new 0 []) example_rng example_calls = ok s"
      "\<forall>k v. search_element s k v =
          ok (case stored example_calls k of None \<Rightarrow> (False, v, s) | Some x \<Rightarrow> (True, x, s))"
    by blast
  have eq: "s = example_index"
    using s(1) example_index_reached by simp
  have "stored example_calls 7 = Some ''study''" "stored example_calls 3 = None"
    by (simp_all add: stored_def example_calls_def)
  with s(2) show ?thesis
    unfolding eq by simp
qed

text \<open>
  C2. After every finite sequence of calls on an initially empty index (insert, delete
  and clear, and also search and traverse), at each level up to \<open>MAX_LEVEL\<close> the nodes
  that follow the header form a chain that ends in the null pointer, their keys are
  strictly increasing, and every key of the chain is a key of the chain of each level
  below; and the chain of the current level is not empty unless the chain of level 0 is.
\<close>

theorem structure_after_calls:
  "\<exists>s. run (SkipList_new k0 v0) g cs = ok s \<and>
       (\<forall>i\<le>MAX_LEVEL. \<exists>as. level_chain s i as \<and>
           sorted_wrt (<) (map (key_of (memory s)) as) \<and>
           (\<forall>j<i. \<exists>bs. level_chain s j bs \<and>
               set (map (key_of (memory s)) as) \<subseteq> set (map (key_of (memory s)) bs))) \<and>
       (\<not> level_chain s (current_level s) [] \<or> level_chain s 0 [])"
proof -
  from run_new_holds [of k0 v0 g cs] obtain s where
    s: "run (SkipList_new k0 v0) g cs = ok s" "holds s (foldl apply_call [] cs)"
    by blast
  from s(2) obtain hdr as where R: "repr s hdr as"
    unfolding holds_def by blast
  let ?h = "memory s"
  note H = repr_hrepr [OF R]
  have chain: "\<And>i. i \<le> MAX_LEVEL \<Longrightarrow> level_chain s i (at_level ?h i as)"
    using hrepr_path [OF H] by (simp add: level_chain_def repr_header [OF R])
  have levels: "\<forall>i\<le>MAX_LEVEL. \<exists>as. level_chain s i as \<and>
           sorted_wrt (<) (map (key_of ?h) as) \<and>
           (\<forall>j<i. \<exists>bs. level_chain s j bs \<and>
               set (map (key_of ?h) as) \<subseteq> set (map (key_of ?h) bs))"
  proof (intro allI impI)
    fix i assume i: "i \<le> MAX_LEVEL"
    have "sorted_wrt (<) (map (key_of ?h) (at_level ?h i as))"
      using hrepr_ascending_level [OF H, of i] by (simp add: sorted_wrt_map)
    moreover have "\<forall>j<i. \<exists>bs. level_chain s j bs \<and>
        set (map (key_of ?h) (at_level ?h i as)) \<subseteq> set (map (key_of ?h) bs)"
    proof (intro allI impI)
      fix j assume j: "j < i"
      then have "set (at_level ?h i as) \<subseteq> set (at_level ?h j as)"
        by (auto simp: at_level_def)
      then have "set (map (key_of ?h) (at_level ?h i as)) \<subseteq> set (map (key_of ?h) (at_level ?h j as))"
        by auto
      moreover have "level_chain s j (at_level ?h j as)"
        using chain [of j] i j by simp
      ultimately show "\<exists>bs. level_chain s j bs \<and>
          set (map (key_of ?h) (at_level ?h i as)) \<subseteq> set (map (key_of ?h) bs)"
        by blast
    qed
    ultimately show "\<exists>as. level_chain s i as \<and>
           sorted_wrt (<) (map (key_of ?h) as) \<and>
           (\<forall>j<i. \<exists>bs. level_chain s j bs \<and>
               set (map (key_of ?h) as) \<subseteq> set (map (key_of ?h) bs))"
      using chain [OF i] by blast
  qed
  have top: "\<not> level_chain s (current_level s) [] \<or> level_chain s 0 []"
  proof (cases "as = []")
    case True
    with chain [of 0] show ?thesis
      by (simp add: at_level_0)
  next
    case False
    have "at_level ?h (current_level s) as \<noteq> []"
    proof (cases "current_level s = 0")
      case True
      with False show ?thesis by (simp add: at_level_0)
    next
      case False
      with R obtain a where "a \<in> set as" "level_of ?h a = current_level s"
        by (auto simp: repr_def)
      then have "a \<in> set (at_level ?h (current_level s) as)"
        by (simp add: at_level_def)
      then show ?thesis by auto
    qed
    then have "succ_at ?h (current_level s) hdr \<noteq> None"
      using header_succ_None [OF H repr_level [OF R]] by simp
    then have "\<not> level_chain s (current_level s) []"
      by (simp add: level_chain_def repr_header [OF R])
    then show ?thesis ..
  qed
  from s(1) levels top show ?thesis by blast
qed

theorem structure_after_calls_witness:
  "(1::nat) \<le> MAX_LEVEL \<and>
   (\<exists>as. level_chain example_index 1 as \<and>
      sorted_wrt (<) (map (key_of (memory example_index)) as) \<and>
      (\<exists>bs. level_chain example_index 0 bs \<and>
         set (map (key_of (memory example_index)) as) \<subseteq> set (map (key_of (memory example_index)) bs))) \<and>
   \<not> level_chain example_index (current_level example_index) []"
proof -
  from structure_after_calls [of 0 "[]" example_rng example_calls] obtain s where
    s: "run (SkipList_new 0 []) example_rng example_calls = ok s"
      "\<forall>i\<le>MAX_LEVEL. \<exists>as. level_chain s i as \<and>
           sorted_wrt (<) (map (key_of (memory s)) as) \<and>
           (\<forall>j<i. \<exists>bs. level_chain s j bs \<and>
               set (map (key_of (memory s)) as) \<subseteq> set (map (key_of (memory s)) bs))"
      "\<not> level_chain s (current_level s) [] \<or> level_chain s 0 []"
    by blast
  have eq: "s = example_index"
    using s(1) example_index_reached by simp
  have one: "(1::nat) \<le> MAX_LEVEL"
    by (simp add: MAX_LEVEL_def)
  have "\<not> level_chain example_index 0 []"
    by (simp add: level_chain_def example_index_def succ_at_def node_of_def)
  with s(3) have top: "\<not> level_chain example_index (current_level example_index) []"
    unfolding eq by simp
  from s(2) one obtain as where
    as: "level_chain example_index 1 as"
      "sorted_wrt (<) (map (key_of (memory example_index)) as)"
      "\<forall>j<1. \<exists>bs. level_chain example_index j bs \<and>
          set (map (key_of (memory example_index)) as) \<subseteq> set (map (key_of (memory example_index)) bs)"
    unfolding eq by blast
  from as(3) obtain bs where
    "level_chain example_index 0 bs"
    "set (map (key_of (memory example_index)) as) \<subseteq> set (map (key_of (memory example_index)) bs)"
    by auto
  with as(1,2) one top show ?thesis by blast
qed

text \<open>
  C9. \<open>get_random_level\<close> returns a level between 0 and \<open>MAX_LEVEL\<close>; a node is
  allocated with level + 1 successor slots; and after every finite sequence of insert,
  search, delete, clear and traverse calls on an initially empty index every call has
  returned, so none has indexed a \<open>forward_\<close> or \<open>update\<close> vector out of range or
  followed a null or dangling pointer, and the header has \<open>MAX_LEVEL\<close> + 1 slots.
\<close>

theorem levels_and_indices_in_bounds:
  "fst (get_random_level g) \<le> MAX_LEVEL \<and>
   length (forward (Node_new k v level)) = level + 1 \<and>
   (\<exists>s hdr n. run (SkipList_new k0 v0) g' cs = ok s \<and>
      header s = Some hdr \<and> deref (memory s) (Some hdr) = ok n \<and>
      length (forward n) = MAX_LEVEL + 1)"
proof -
  from run_new_holds [of k0 v0 g' cs] obtain s where
    s: "run (SkipList_new k0 v0) g' cs = ok s" "holds s (foldl apply_call [] cs)"
    by blast
  from s(2) obtain hdr as where R: "repr s hdr as"
    unfolding holds_def by blast
  from repr_hrepr [OF R] obtain n where
    "node_of (memory s) hdr = Some n" "length (forward n) = MAX_LEVEL + 1"
    unfolding hrepr_def by blast
  then have "deref (memory s) (Some hdr) = ok n \<and> length (forward n) = MAX_LEVEL + 1"
    by (simp add: deref_node_of)
  with s(1) repr_header [OF R]
  have "\<exists>s hdr n. run (SkipList_new k0 v0) g' cs = ok s \<and>
      header s = Some hdr \<and> deref (memory s) (Some hdr) = ok n \<and>
      length (forward n) = MAX_LEVEL + 1"
    by blast
  then show ?thesis
    by (simp add: get_random_level_le Node_new_def)
qed

theorem levels_and_indices_in_bounds_witness:
  "fst (get_random_level example_rng) \<le> MAX_LEVEL \<and>
   length (forward (Node_new (1::int) ''good'' 2)) = 2 + 1 \<and>
   (\<exists>n. deref (memory example_index) (header example_index) = ok n \<and>
      length (forward n) = MAX_LEVEL + 1)"
proof -
  from levels_and_indices_in_bounds [of example_rng "1::int" "''good''" 2 0 "[]" example_rng example_calls]
  obtain s hdr n where
    b: "fst (get_random_level example_rng) \<le> MAX_LEVEL"
      "length (forward (Node_new (1::int) ''good'' 2)) = 2 + 1"
      "run (SkipList_new 0 []) example_rng example_calls = ok s"
      "header s = Some hdr" "deref (memory s) (Some hdr) = ok n"
      "length (forward n) = MAX_LEVEL + 1"
    by blast
  have eq: "s = example_index"
    using b(3) example_index_reached by simp
  from b(4,5,6) have "\<exists>n. deref (memory example_index) (header example_index) = ok n \<and>
      length (forward n) = MAX_LEVEL + 1"
    unfolding eq by auto
  with b(1,2) show ?thesis by blast
qed

section \<open>Claims corrected on the code\<close>

text \<open>
  C3, as stated, fails: \<open>insert_element\<close> returns \<open>true\<close> for a key that is present
  (key 1 of the example) as it does for a key that is absent (key 2), so the result does
  not tell an update from an insertion.
\<close>

theorem insert_result_counterexample:
  "returned (search_element example_index 1 []) = Some True \<and>
   returned (search_element example_index 2 []) = Some False \<and>
   returned (insert_element example_index 1 ''new'' example_rng) = Some True \<and>
   returned (insert_element example_index 2 ''new'' example_rng) = Some True"
  by code_simp

text \<open>
  C3, amended. In every state of an index that calls can reach, \<open>insert_element\<close> of a
  key that a traversal yields returns \<open>true\<close> (as for a new key) and draws no random
  level; the index after the call differs from the one before only in the value of the
  node that holds the key: the element count, the current level, and the key, the level
  and the successors of every node are unchanged, and a traversal yields the same pairs
  with the new value at the key.
\<close>

theorem insert_existing_overwrites_value:
  assumes "run (SkipList_new k0 v0) g cs = ok s"
    and "traverse s = ok kvs"
    and "k \<in> fst ` set kvs"
  shows "\<exists>d n. deref (memory s) (Some d) = ok n \<and> nkey n = k \<and>
           insert_element s k v g' =
             ok (True, s\<lparr>memory := (memory s)[d := Some (n\<lparr>nvalue := v\<rparr>)]\<rparr>, g') \<and>
           traverse (s\<lparr>memory := (memory s)[d := Some (n\<lparr>nvalue := v\<rparr>)]\<rparr>) =
             ok (put_entry k v kvs)"
proof -
  have hs: "holds s kvs"
    using assms(1,2) by (rule reached_holds)
  then obtain hdr as where R: "repr s hdr as" and E: "entries (memory s) as = kvs"
    unfolding holds_def by blast
  let ?h = "memory s"
  note H = repr_hrepr [OF R]
  have "k \<in> key_of ?h ` set as"
    using assms(3) unfolding E [symmetric] by (simp add: keys_of_entries)
  then obtain d where K: "find_key ?h k as = Some d" and d: "d \<in> set as" "key_of ?h d = k"
    using find_key_Some [OF H, of k] by blast
  from d obtain n where n: "node_of ?h d = Some n"
    using hrepr_node [OF H] by blast
  have upd: "upd_value ?h d v = ?h[d := Some (n\<lparr>nvalue := v\<rparr>)]"
    using n by (simp add: upd_value_def)
  have ins: "insert_element s k v g' = ok (True, s\<lparr>memory := ?h[d := Some (n\<lparr>nvalue := v\<rparr>)]\<rparr>, g')"
    using insert_element_present(1) [OF R K, of v g'] by (simp add: upd)
  from holds_insert [OF hs, of k v g'] ins
  have "holds (s\<lparr>memory := ?h[d := Some (n\<lparr>nvalue := v\<rparr>)]\<rparr>) (put_entry k v kvs)"
    by auto
  then have "traverse (s\<lparr>memory := ?h[d := Some (n\<lparr>nvalue := v\<rparr>)]\<rparr>) = ok (put_entry k v kvs)"
    by (rule holds_traverse)
  moreover have "deref ?h (Some d) = ok n" "nkey n = k"
    using n d(2) by (simp_all add: deref_node_of key_of_def)
  ultimately show ?thesis
    using ins by blast
qed

theorem insert_existing_overwrites_value_witness:
  "\<exists>d n. deref (memory example_index) (Some d) = ok n \<and> nkey n = 7 \<and>
     insert_element example_index 7 ''play'' example_rng =
       ok (True, example_index\<lparr>memory := (memory example_index)[d := Some (n\<lparr>nvalue := ''play''\<rparr>)]\<rparr>,
           example_rng) \<and>
     traverse (example_index\<lparr>memory := (memory example_index)[d := Some (n\<lparr>nvalue := ''play''\<rparr>)]\<rparr>) =
       ok (put_entry 7 ''play'' [(1, ''good''), (7, ''study'')])"
proof -
  have present: "(7::int) \<in> fst ` set [(1, ''good''), (7, ''study'')]"
    by simp
  show ?thesis
    using example_index_reached example_index_traverse present
    by (rule insert_existing_overwrites_value)
qed

text \<open>
  C7, as stated, fails: \<open>del\<close> of the store is declared \<open>void\<close>. It returns the same,
  nothing, for a key that is present (key 1) and for one that is absent (key 3), while
  \<open>delete_element\<close> of the index returns \<open>true\<close> and \<open>false\<close>.
\<close>

theorem del_result_counterexample:
  "returned (delete_element example_index 1) = Some True \<and>
   returned (delete_element example_index 3) = Some False \<and>
   returned (del example_store 1) = Some () \<and>
   returned (del example_store 3) = Some ()"
  by code_simp

text \<open>
  C7, amended. In every state of an index that calls can reach, \<open>delete_element\<close>
  returns \<open>true\<close> when a traversal yields the key, and then removes it, and \<open>false\<close>
  when it does not; \<open>del\<close> of the store makes the same change to its index and returns
  nothing.
\<close>

theorem del_drops_the_signal:
  assumes "run (SkipList_new k0 v0) g cs = ok s"
    and "traverse s = ok kvs"
  shows "\<exists>s'. delete_element s k = ok (k \<in> fst ` set kvs, s') \<and>
           traverse s' = ok (remove_entry k kvs) \<and>
           del \<lparr>skip_list = s, file_path = p\<rparr> k = ok ((), \<lparr>skip_list = s', file_path = p\<rparr>)"
proof -
  have "holds s kvs"
    using assms by (rule reached_holds)
  from holds_delete [OF this, of k] obtain s' where
    s': "delete_element s k = ok (k \<in> fst ` set kvs, s')" "holds s' (remove_entry k kvs)"
    by blast
  from s'(1) have "del \<lparr>skip_list = s, file_path = p\<rparr> k = ok ((), \<lparr>skip_list = s', file_path = p\<rparr>)"
    by (simp add: del_def)
  with s'(1) holds_traverse [OF s'(2)] show ?thesis by blast
qed

theorem del_drops_the_signal_witness:
  "\<exists>s'. delete_element example_index 7 = ok (True, s') \<and>
     traverse s' = ok [(1, ''good'')] \<and>
     del example_store 7 = ok ((), \<lparr>skip_list = s', file_path = ''store/dumpFile''\<rparr>)"
proof -
  from del_drops_the_signal [OF example_index_reached example_index_traverse, of 7 "''store/dumpFile''"]
  show ?thesis
    by (simp add: remove_entry_def example_store_def)
qed

section \<open>The text of a key\<close>

lemma of_char_digit_char: "0 \<le> d \<Longrightarrow> d < 10 \<Longrightarrow> (of_char (digit_char d) :: int) = 48 + d"
  by (simp add: digit_char_def of_char_of)

lemma is_digit_digit_char: "0 \<le> d \<Longrightarrow> d < 10 \<Longrightarrow> is_digit (digit_char d)"
  by (simp add: is_digit_def of_char_digit_char)

lemma digit_value_digit_char: "0 \<le> d \<Longrightarrow> d < 10 \<Longrightarrow> digit_value (digit_char d) = d"
  by (simp add: digit_value_def of_char_digit_char)

lemma is_digit_plain:
  "is_digit c \<Longrightarrow> \<not> is_space c \<and> c \<noteq> CHR ''-'' \<and> c \<noteq> CHR ''+'' \<and> c \<noteq> delimiter \<and> c \<noteq> newline"
  by (auto simp: is_digit_def is_space_def delimiter_def newline_def)

lemma minus_plain: "\<not> is_space CHR ''-'' \<and> CHR ''-'' \<noteq> delimiter \<and> CHR ''-'' \<noteq> newline"
  by (simp add: is_space_def delimiter_def newline_def)

lemma digits_of_all_digits: "0 \<le> n \<Longrightarrow> c \<in> set (digits_of n) \<Longrightarrow> is_digit c"
proof (induction n rule: digits_of.induct)
  case (1 n)
  show ?case
  proof (cases "n < 10")
    case True
    with "1.prems" show ?thesis
      by (subst (asm) digits_of.simps) (simp add: is_digit_digit_char)
  next
    case False
    with "1.prems" "1.IH" show ?thesis
      by (subst (asm) digits_of.simps) (auto simp: is_digit_digit_char)
  qed
qed

lemma digits_of_not_empty: "digits_of n \<noteq> []"
  by (subst digits_of.simps) simp

lemma digits_value_snoc: "digits_value (ds @ [c]) = 10 * digits_value ds + digit_value c"
  by (simp add: digits_value_def)

lemma digits_value_digits_of: "0 \<le> n \<Longrightarrow> digits_value (digits_of n) = n"
proof (induction n rule: digits_of.induct)
  case (1 n)
  show ?case
  proof (cases "n < 10")
    case True
    with "1.prems" show ?thesis
      by (subst digits_of.simps) (simp add: digits_value_def digit_value_digit_char)
  next
    case False
    with "1.prems" "1.IH" show ?thesis
      by (subst digits_of.simps) (simp add: digits_value_snoc digit_value_digit_char)
  qed
qed

lemma takeWhile_all: "\<forall>x\<in>set xs. P x \<Longrightarrow> takeWhile P xs = xs"
  by (simp add: takeWhile_eq_all_conv)

lemma read_digits:
  assumes "0 \<le> n"
  shows "dropWhile is_space (digits_of n) = digits_of n"
    and "hd (digits_of n) \<noteq> CHR ''-''" and "hd (digits_of n) \<noteq> CHR ''+''"
    and "takeWhile is_digit (digits_of n) = digits_of n"
proof -
  have all: "\<forall>c\<in>set (digits_of n). is_digit c"
    using assms digits_of_all_digits by blast
  have "hd (digits_of n) \<in> set (digits_of n)"
    using digits_of_not_empty by (rule hd_in_set)
  with all have first: "is_digit (hd (digits_of n))"
    by blast
  then show "hd (digits_of n) \<noteq> CHR ''-''" "hd (digits_of n) \<noteq> CHR ''+''"
    using is_digit_plain by blast+
  from first have "\<not> is_space (hd (digits_of n))"
    using is_digit_plain by blast
  then show "dropWhile is_space (digits_of n) = digits_of n"
    using digits_of_not_empty [of n] by (cases "digits_of n") simp_all
  from all show "takeWhile is_digit (digits_of n) = digits_of n"
    by (rule takeWhile_all)
qed

lemma read_int_write_int:
  assumes "INT_MIN \<le> k" "k \<le> INT_MAX"
  shows "read_int (write_int k) = k"
proof (cases "k < 0")
  case True
  then have pos: "0 \<le> - k" by simp
  have "write_int k = CHR ''-'' # digits_of (- k)"
    using True by (simp add: write_int_def)
  then show ?thesis
    using assms True
    by (simp add: read_int_def Let_def read_digits(4) [OF pos] digits_value_digits_of [OF pos]
        digits_of_not_empty minus_plain)
next
  case False
  then have pos: "0 \<le> k" by simp
  have "write_int k = digits_of k"
    using False by (simp add: write_int_def)
  then show ?thesis
    using assms False
    by (simp add: read_int_def Let_def read_digits [OF pos] digits_value_digits_of [OF pos]
        digits_of_not_empty)
qed

lemma write_int_plain: "c \<in> set (write_int k) \<Longrightarrow> c \<noteq> delimiter \<and> c \<noteq> newline"
proof (cases "k < 0")
  case True
  assume "c \<in> set (write_int k)"
  with True have "c = CHR ''-'' \<or> c \<in> set (digits_of (- k))"
    by (simp add: write_int_def)
  then show ?thesis
    using True digits_of_all_digits [of "- k" c] is_digit_plain [of c] minus_plain by auto
next
  case False
  assume "c \<in> set (write_int k)"
  with False have "c \<in> set (digits_of k)"
    by (simp add: write_int_def)
  then show ?thesis
    using False digits_of_all_digits [of k c] is_digit_plain [of c] by auto
qed

section \<open>The snapshot file\<close>

lemma getlines_empty: "getlines [] = []"
  by (subst getlines.simps) simp

lemma getlines_line:
  assumes "newline \<notin> set l"
  shows "getlines (l @ newline # rest) = l # getlines rest"
proof -
  have all: "\<forall>c\<in>set l. c \<noteq> newline"
    using assms by blast
  have "takeWhile (\<lambda>c. c \<noteq> newline) (l @ newline # rest) = l"
    using all by (simp add: takeWhile_append2 takeWhile_tail)
  moreover have "dropWhile (\<lambda>c. c \<noteq> newline) (l @ newline # rest) = newline # rest"
    using all by (simp add: dropWhile_append2)
  ultimately show ?thesis
    by (subst getlines.simps) simp
qed

lemma entry_line_no_newline: "newline \<notin> set v \<Longrightarrow> newline \<notin> set (entry_line k v)"
  using write_int_plain [of newline k] by (auto simp: entry_line_def delimiter_def newline_def)

lemma getlines_snapshot:
  "\<forall>(k, v)\<in>set kvs. newline \<notin> set v \<Longrightarrow>
   getlines (snapshot kvs) = map (\<lambda>(k, v). entry_line k v) kvs"
proof (induction kvs)
  case Nil
  then show ?case by (simp add: snapshot_def getlines_empty)
next
  case (Cons e kvs)
  obtain k v where e: "e = (k, v)" by (cases e)
  with Cons.prems have "newline \<notin> set (entry_line k v)"
    by (simp add: entry_line_no_newline)
  then have "getlines (entry_line k v @ newline # snapshot kvs) = entry_line k v # getlines (snapshot kvs)"
    by (rule getlines_line)
  with Cons e show ?case
    by (simp add: snapshot_def)
qed

lemma split_entry_line:
  "delimiter \<in> set (entry_line k v)"
  "takeWhile (\<lambda>c. c \<noteq> delimiter) (entry_line k v) = write_int k"
  "drop (Suc 0) (dropWhile (\<lambda>c. c \<noteq> delimiter) (entry_line k v)) = v"
proof -
  have all: "\<forall>c\<in>set (write_int k). c \<noteq> delimiter"
    using write_int_plain [of _ k] by blast
  show "delimiter \<in> set (entry_line k v)"
    by (simp add: entry_line_def)
  show "takeWhile (\<lambda>c. c \<noteq> delimiter) (entry_line k v) = write_int k"
    using all by (simp add: entry_line_def takeWhile_append2)
  show "drop (Suc 0) (dropWhile (\<lambda>c. c \<noteq> delimiter) (entry_line k v)) = v"
    using all by (simp add: entry_line_def dropWhile_append2)
qed

lemma load_lines_entries:
  "holds s kvs0 \<Longrightarrow> \<forall>(k, v)\<in>set kvs. INT_MIN \<le> k \<and> k \<le> INT_MAX \<Longrightarrow>
   \<exists>s' g'. load_lines s (map (\<lambda>(k, v). entry_line k v) kvs) g = ok (s', g') \<and>
     holds s' (foldl (\<lambda>acc (k, v). put_entry k v acc) kvs0 kvs)"
proof (induction kvs arbitrary: s g kvs0)
  case Nil
  then show ?case by simp
next
  case (Cons e kvs)
  obtain k v where e: "e = (k, v)" by (cases e)
  with Cons.prems(2) have range: "INT_MIN \<le> k" "k \<le> INT_MAX"
    and rest: "\<forall>(k, v)\<in>set kvs. INT_MIN \<le> k \<and> k \<le> INT_MAX"
    by simp_all
  from holds_insert [OF Cons.prems(1), of k v g] obtain s1 g1 where
    s1: "insert_element s k v g = ok (True, s1, g1)" "holds s1 (put_entry k v kvs0)"
    by blast
  from Cons.IH [OF s1(2) rest, of g1] obtain s' g' where
    s': "load_lines s1 (map (\<lambda>(k, v). entry_line k v) kvs) g1 = ok (s', g')"
      "holds s' (foldl (\<lambda>acc (k, v). put_entry k v acc) (put_entry k v kvs0) kvs)"
    by blast
  have "load_lines s (entry_line k v # map (\<lambda>(k, v). entry_line k v) kvs) g = ok (s', g')"
    using s1(1) s'(1) by (simp add: split_entry_line read_int_write_int [OF range])
  with s'(2) e show ?case
    by auto
qed

lemma put_entry_last:
  assumes "\<forall>e\<in>set acc. fst e < k"
  shows "put_entry k v acc = acc @ [(k, v)]"
proof -
  have "filter (\<lambda>e. fst e < k) acc = acc"
    using assms by (simp add: filter_id_conv)
  moreover have "filter (\<lambda>e. k < fst e) acc = []"
    using assms by (auto simp: filter_empty_conv)
  ultimately show ?thesis
    by (simp add: put_entry_def)
qed

lemma foldl_put_entry_sorted:
  "sorted_wrt (<) (map fst (acc @ kvs)) \<Longrightarrow>
   foldl (\<lambda>acc (k, v). put_entry k v acc) acc kvs = acc @ kvs"
proof (induction kvs arbitrary: acc)
  case Nil
  then show ?case by simp
next
  case (Cons e kvs)
  obtain k v where e: "e = (k, v)" by (cases e)
  from Cons.prems have "\<forall>x\<in>set acc. fst x < k"
    by (auto simp: e sorted_wrt_append)
  then have "put_entry k v acc = acc @ [(k, v)]"
    by (rule put_entry_last)
  moreover have "sorted_wrt (<) (map fst ((acc @ [(k, v)]) @ kvs))"
    using Cons.prems by (simp add: e)
  ultimately show ?case
    using Cons.IH [of "acc @ [(k, v)]"] by (simp add: e)
qed

lemma holds_process_all:
  assumes "holds s kvs"
  shows "process_all s f acc = ok (foldl (\<lambda>acc (k, v). f k v acc) acc kvs)"
proof -
  from assms obtain hdr as where R: "repr s hdr as" and E: "entries (memory s) as = kvs"
    unfolding holds_def by blast
  show ?thesis
    unfolding E [symmetric] process_all_repr [OF R] entries_def
    by (simp add: foldl_map)
qed

lemma foldl_dump_line:
  "foldl (\<lambda>acc (k, v). dump_line k v acc) acc kvs = acc @ snapshot kvs"
  by (induction kvs arbitrary: acc) (auto simp: snapshot_def dump_line_def entry_line_def)

lemma dump_holds:
  assumes "holds s kvs" "writable fs p"
  shows "dump \<lparr>skip_list = s, file_path = p\<rparr> fs =
         ok (\<lparr>skip_list = s, file_path = p\<rparr>, fs\<lparr>readable := (readable fs)(p := Some (snapshot kvs))\<rparr>, [])"
  using assms(2) by (simp add: dump_def holds_process_all [OF assms(1)] foldl_dump_line)

lemma load_snapshot:
  assumes "sorted_wrt (<) (map fst kvs)"
    and "\<forall>(k, v)\<in>set kvs. INT_MIN \<le> k \<and> k \<le> INT_MAX \<and> newline \<notin> set v"
    and "readable fs p = Some (snapshot kvs)"
  shows "\<exists>st' g'. KVStore_new p k0 fs g = ok (st', g') \<and> holds (skip_list st') kvs"
proof -
  have lines: "getlines (snapshot kvs) = map (\<lambda>(k, v). entry_line k v) kvs"
    using assms(2) by (intro getlines_snapshot) auto
  have range: "\<forall>(k, v)\<in>set kvs. INT_MIN \<le> k \<and> k \<le> INT_MAX"
    using assms(2) by auto
  from load_lines_entries [OF holds_new range, of k0 "[]" g] obtain s' g' where
    s': "load_lines (SkipList_new k0 []) (map (\<lambda>(k, v). entry_line k v) kvs) g = ok (s', g')"
      "holds s' (foldl (\<lambda>acc (k, v). put_entry k v acc) [] kvs)"
    by blast
  have "foldl (\<lambda>acc (k, v). put_entry k v acc) [] kvs = kvs"
    using foldl_put_entry_sorted [of "[]" kvs] assms(1) by simp
  with s'(2) have "holds s' kvs"
    by simp
  moreover have "KVStore_new p k0 fs g = ok (\<lparr>skip_list = s', file_path = p\<rparr>, g')"
    using assms(3) s'(1) by (simp add: KVStore_new_def load_def lines)
  ultimately show ?thesis
    by auto
qed

section \<open>Claims about the store\<close>

text \<open>
  C5, as stated, fails: a value with a newline in it and no delimiter (\<open>a\<close>, newline,
  \<open>b\<close>, at key 1) is written as two lines, and the store constructed on the file holds
  key 1 with the value \<open>a\<close>.
\<close>

theorem roundtrip_counterexample:
  "run (SkipList_new 0 []) example_rng [Insert 1 two_line_value] = ok two_line_index \<and>
   traverse two_line_index = ok [(1, two_line_value)] \<and>
   delimiter \<notin> set two_line_value \<and>
   reload two_line_index ''store/dumpFile'' open_files 0 example_rng = ok [(1, ''a'')] \<and>
   [(1::int, ''a'')] \<noteq> [(1, two_line_value)]"
  by code_simp

text \<open>
  C5, amended. For every reachable index of the store (keys are \<open>int\<close>s) whose values
  contain neither the delimiter nor the newline character, \<open>dump\<close> to a path that can
  be opened writes one \<open>key:value\<close> line per entry, in ascending key order, and reports
  nothing; a fresh store constructed on that file then holds exactly the original pairs,
  in the same traversal order.
\<close>

theorem dump_load_roundtrip:
  assumes "run (SkipList_new k0 v0) g cs = ok s"
    and "traverse s = ok kvs"
    and "\<forall>(k, v)\<in>set kvs. INT_MIN \<le> k \<and> k \<le> INT_MAX \<and> delimiter \<notin> set v \<and> newline \<notin> set v"
    and "writable fs p"
  shows "dump \<lparr>skip_list = s, file_path = p\<rparr> fs =
           ok (\<lparr>skip_list = s, file_path = p\<rparr>,
               fs\<lparr>readable := (readable fs)(p := Some (snapshot kvs))\<rparr>, []) \<and>
         sorted_wrt (<) (map fst kvs) \<and>
         reload s p fs k1 g' = ok kvs"
proof -
  let ?fs' = "fs\<lparr>readable := (readable fs)(p := Some (snapshot kvs))\<rparr>"
  have hs: "holds s kvs"
    using assms(1,2) by (rule reached_holds)
  have dumped: "dump \<lparr>skip_list = s, file_path = p\<rparr> fs = ok (\<lparr>skip_list = s, file_path = p\<rparr>, ?fs', [])"
    using hs assms(4) by (rule dump_holds)
  have sorted: "sorted_wrt (<) (map fst kvs)"
    using hs by (rule holds_sorted)
  have plain: "\<forall>(k, v)\<in>set kvs. INT_MIN \<le> k \<and> k \<le> INT_MAX \<and> newline \<notin> set v"
    using assms(3) by auto
  have "readable ?fs' p = Some (snapshot kvs)"
    by simp
  from load_snapshot [OF sorted plain this, of k1 g'] obtain st' g'' where
    "KVStore_new p k1 ?fs' g' = ok (st', g'')" "holds (skip_list st') kvs"
    by blast
  then have "reload s p fs k1 g' = ok kvs"
    using dumped by (simp add: reload_def holds_traverse)
  with dumped sorted show ?thesis by simp
qed

theorem dump_load_roundtrip_witness:
  "dump \<lparr>skip_list = example_index, file_path = ''store/dumpFile''\<rparr> open_files =
     ok (\<lparr>skip_list = example_index, file_path = ''store/dumpFile''\<rparr>,
         open_files\<lparr>readable := (readable open_files)
           (''store/dumpFile'' := Some (snapshot [(1, ''good''), (7, ''study'')]))\<rparr>, []) \<and>
   sorted_wrt (<) (map fst [(1::int, ''good''), (7, ''study'')]) \<and>
   reload example_index ''store/dumpFile'' open_files 0 example_rng = ok [(1, ''good''), (7, ''study'')]"
proof -
  have plain: "\<forall>(k, v)\<in>set [(1, ''good''), (7, ''study'')].
      INT_MIN \<le> k \<and> k \<le> INT_MAX \<and> delimiter \<notin> set v \<and> newline \<notin> set v"
    by (simp add: INT_MIN_def INT_MAX_def delimiter_def newline_def)
  have can_write: "writable open_files ''store/dumpFile''"
    by (simp add: open_files_def)
  show ?thesis
    using example_index_reached example_index_traverse plain can_write
    by (rule dump_load_roundtrip)
qed

text \<open>
  C8, as stated, fails: \<open>load\<close> on a file that cannot be opened returns what it returns
  on an empty file that can, the store as it was, and reports nothing.
\<close>

theorem load_failure_counterexample:
  "readable no_files (file_path example_store) = None \<and>
   readable empty_files (file_path example_store) = Some [] \<and>
   load example_store no_files example_rng = load example_store empty_files example_rng"
  by (simp add: no_files_def empty_files_def load_def getlines_empty)

text \<open>
  C8, amended. When the snapshot file cannot be opened, \<open>dump\<close> writes one line to the
  error stream and returns, and \<open>load\<close> returns without a report; in both cases the
  store, its index and the file system are as they were before the call.
\<close>

theorem open_failure_leaves_index:
  "(\<not> writable fs (file_path st) \<longrightarrow>
      dump st fs = ok (st, fs, [''Error opening file for dump: '' @ file_path st])) \<and>
   (readable fs (file_path st) = None \<longrightarrow> load st fs g = ok (st, g))"
  by (simp add: dump_def load_def)

theorem open_failure_leaves_index_witness:
  "\<not> writable no_files (file_path example_store) \<and>
   dump example_store no_files =
     ok (example_store, no_files, [''Error opening file for dump: '' @ file_path example_store]) \<and>
   readable no_files (file_path example_store) = None \<and>
   load example_store no_files example_rng = ok (example_store, example_rng)"
proof -
  have closed: "\<not> writable no_files (file_path example_store)"
    and missing: "readable no_files (file_path example_store) = None"
    by (simp_all add: no_files_def)
  from open_failure_leaves_index [of no_files example_store example_rng] closed missing
  show ?thesis by simp
qed

section \<open>Calls that take no lock\<close>

text \<open>
  C6. The code does not do what the claim says. While another thread holds the lock
  exclusively, \<open>insert_element\<close>, \<open>delete_element\<close> and \<open>search_element\<close> wait for it,
  but \<open>clear\<close> and \<open>process_all\<close> never touch the lock: \<open>clear\<close> runs and frees the
  nodes, and a traversal runs too. And a traversal that has read the pointer to the first
  node (address 1, key 1), when a \<open>delete_element\<close> of that key then runs in between,
  goes on to follow the pointer to the node that was freed.
\<close>

theorem clear_and_traverse_take_no_lock:
  "insert_element locked_index 9 ''day'' example_rng = None \<and>
   delete_element locked_index 7 = None \<and>
   search_element locked_index 7 [] = None \<and>
   returned (andthen (clear locked_index) (\<lambda>s. ok (mutex s, memory s))) = Some Exclusive \<and>
   traverse locked_index = ok [(1, ''good''), (7, ''study'')] \<and>
   get_forward (memory example_index) (header example_index) 0 = ok (Some 1) \<and>
   andthen (delete_element example_index 1) (\<lambda>(removed, s).
     process_all_loop (memory s) (\<lambda>k v acc. acc @ [(k, v)]) (Some 1) []) = fault DanglingPointer"
  by code_simp

end
